theory Spec2Isabelle
  imports Complex_Main "HOL-Library.Multiset" "HOL-Library.Log_Nat"
begin

section \<open>Go values: errors, results, panics, slices, 64-bit integers\<close>

text \<open>
  A Go \<^verbatim>\<open>error\<close> value is modelled by its message. A function returning
  \<^verbatim>\<open>(T, error)\<close> returns \<open>Ok v\<close> (the error is nil) or \<open>Err e\<close> (every error
  return of \<^verbatim>\<open>fastembed.go\<close> has the shape \<^verbatim>\<open>return nil, err\<close> or
  \<^verbatim>\<open>return "", err\<close>, so the value beside a non-nil error carries no information).
  A run-time panic of a pure function is the value \<open>None\<close>.
\<close>

datatype error = Error string

datatype 'a result = Ok 'a | Err error

text \<open>
  Go's \<^verbatim>\<open>int64\<close> (and \<^verbatim>\<open>int\<close> on the 64-bit targets of onnxruntime) is an
  \<open>int\<close> in \<open>[-2^63, 2^63)\<close>; multiplication and addition wrap around.
\<close>

definition wrap64 :: "int \<Rightarrow> int" where
  "wrap64 k = signed_take_bit 63 k"

definition mul64 :: "int \<Rightarrow> int \<Rightarrow> int" where
  "mul64 a b = wrap64 (a * b)"

definition add64 :: "int \<Rightarrow> int \<Rightarrow> int" where
  "add64 a b = wrap64 (a + b)"

text \<open>
  The slice expression \<^verbatim>\<open>s[lo:hi]\<close> panics unless \<open>0 \<le> lo \<le> hi \<le> cap(s)\<close>. Slices are
  modelled as lists whose capacity is their length (true of the tensor data and of the
  slices \<^verbatim>\<open>make\<close> returns).
\<close>

definition slice :: "'a list \<Rightarrow> int \<Rightarrow> int \<Rightarrow> 'a list option" where
  "slice s lo hi =
     (if 0 \<le> lo \<and> lo \<le> hi \<and> hi \<le> int (length s)
      then Some (take (nat (hi - lo)) (drop (nat lo) s)) else None)"

section \<open>float32 arithmetic\<close>

text \<open>
  The operations of Go's \<^verbatim>\<open>float32\<close> that \<^verbatim>\<open>normalize\<close> uses, over a type \<open>'f\<close> of
  float32 values: the constant \<^verbatim>\<open>float32(0.0)\<close>, \<^verbatim>\<open>+\<close>, \<^verbatim>\<open>*\<close>, \<^verbatim>\<open>/\<close>, the
  composite \<^verbatim>\<open>float32(math.Sqrt(float64(x)))\<close> and the constant
  \<^verbatim>\<open>float32(1e-12)\<close>.
\<close>

record 'f float32_ops =
  f32_zero :: 'f
  f32_add :: "'f \<Rightarrow> 'f \<Rightarrow> 'f"
  f32_mul :: "'f \<Rightarrow> 'f \<Rightarrow> 'f"
  f32_div :: "'f \<Rightarrow> 'f \<Rightarrow> 'f"
  f32_sqrt :: "'f \<Rightarrow> 'f"
  f32_epsilon :: 'f

section \<open>Normalizer: normalize and getEmbeddings\<close>

text \<open>
  \<^verbatim>\<open>norm := float32(0.0); for _, val := range v { norm += val * val }\<close>
\<close>

definition sum_squares :: "'f float32_ops \<Rightarrow> 'f list \<Rightarrow> 'f" where
  "sum_squares ops v = foldl (\<lambda>norm val. f32_add ops norm (f32_mul ops val val)) (f32_zero ops) v"

text \<open>
  \<^verbatim>\<open>norm = float32(math.Sqrt(float64(norm))); epsilon := float32(1e-12)\<close>, then
  \<^verbatim>\<open>normalized[i] = (val / norm) + epsilon\<close> for every element. There is no branch
  and no error result. (The function is \<^verbatim>\<open>normalize\<close> in the source; the name is
  taken in HOL.)
\<close>

definition normalize_vec :: "'f float32_ops \<Rightarrow> 'f list \<Rightarrow> 'f list" where
  "normalize_vec ops v =
     (let norm = f32_sqrt ops (sum_squares ops v);
          epsilon = f32_epsilon ops
      in map (\<lambda>val. f32_add ops (f32_div ops val norm) epsilon) v)"

text \<open>
  The loop of \<^verbatim>\<open>getEmbeddings\<close> over \<open>i = 0, 1, ..., x - 1\<close>:
  \<^verbatim>\<open>startIndex := i * y * z; endIndex := startIndex + z;
  embeddings[i] = normalize(data[startIndex:endIndex])\<close>; the first slice expression out
  of range panics.
\<close>

fun getEmbeddings_loop ::
  "'f float32_ops \<Rightarrow> 'f list \<Rightarrow> int \<Rightarrow> int \<Rightarrow> int list \<Rightarrow> 'f list list option" where
  "getEmbeddings_loop ops data y z [] = Some []"
| "getEmbeddings_loop ops data y z (i # rest) =
     (let startIndex = mul64 (mul64 i y) z;
          endIndex = add64 startIndex z
      in case slice data startIndex endIndex of
           None \<Rightarrow> None
         | Some s \<Rightarrow>
             (case getEmbeddings_loop ops data y z rest of
                None \<Rightarrow> None
              | Some embeddings \<Rightarrow> Some (normalize_vec ops s # embeddings)))"

text \<open>
  \<^verbatim>\<open>x, y, z := dimensions[0], dimensions[1], dimensions[2]\<close> panics on fewer than three
  dimensions, \<^verbatim>\<open>make([][]float32, x)\<close> panics on a negative \<open>x\<close>.
\<close>

definition getEmbeddings :: "'f float32_ops \<Rightarrow> 'f list \<Rightarrow> int list \<Rightarrow> 'f list list option" where
  "getEmbeddings ops data dimensions =
     (case dimensions of
        x # y # z # _ \<Rightarrow>
          if x < 0 then None
          else getEmbeddings_loop ops data y z (map int [0..<nat x])
      | _ \<Rightarrow> None)"

section \<open>Encoder, TensorAssembler and InferencePort: onnxEmbed\<close>

text \<open>
  The external collaborators are parameters. \<open>FlagEmbedding\<close> is the struct of the same
  name; its \<open>tokenizer\<close> field stands for \<^verbatim>\<open>f.tokenizer.EncodeBatch(inputs, true)\<close>,
  which returns one encoding (\<^verbatim>\<open>GetIds\<close>, \<^verbatim>\<open>GetAttentionMask\<close>, \<^verbatim>\<open>GetTypeIds\<close>)
  per input or an error.
\<close>

record encoding =
  GetIds :: "int list"
  GetAttentionMask :: "int list"
  GetTypeIds :: "int list"

record FlagEmbedding =
  tokenizer :: "string list \<Rightarrow> encoding list result"
  model :: string
  maxLength :: int
  modelPath :: string

text \<open>
  The run-time environment of the package: the float32 arithmetic, \<^verbatim>\<open>filepath.Join\<close>,
  and the onnxruntime binding. \<open>NewTensor shape data\<close>, \<open>NewEmptyTensor shape\<close> and
  \<open>NewAdvancedSession path\<close> yield an error or nothing; \<open>Run path shape ids mask types\<close>
  yields an error or the contents the session writes into the output tensor, as a
  function of the flat index (the tensor itself has the fixed size of its shape).
\<close>

record 'f runtime =
  arith :: "'f float32_ops"
  Join :: "string \<Rightarrow> string \<Rightarrow> string"
  NewTensor :: "int list \<Rightarrow> int list \<Rightarrow> error option"
  NewEmptyTensor :: "int list \<Rightarrow> error option"
  NewAdvancedSession :: "string \<Rightarrow> error option"
  Run :: "string \<Rightarrow> int list \<Rightarrow> int list \<Rightarrow> int list \<Rightarrow> int list \<Rightarrow> (nat \<Rightarrow> 'f) result"

text \<open>
  \<^verbatim>\<open>encodingToInt32\<close> allocates three outputs of the lengths of its three inputs and
  fills index \<open>i\<close> of all three for every \<open>i\<close> in the range of the first input: an index
  beyond the second or third input panics, and elements of those beyond the length of
  the first stay 0.
\<close>

definition encodingToInt32 :: "int list \<Rightarrow> int list \<Rightarrow> int list \<Rightarrow> (int list \<times> int list \<times> int list) option" where
  "encodingToInt32 inputA inputB inputC =
     (if length inputA \<le> length inputB \<and> length inputA \<le> length inputC
      then Some (inputA,
                 take (length inputA) inputB @ replicate (length inputB - length inputA) 0,
                 take (length inputA) inputC @ replicate (length inputC - length inputA) 0)
      else None)"

text \<open>The loop that appends the three converted arrays of every encoding.\<close>

fun flatten_encodings ::
  "int list \<times> int list \<times> int list \<Rightarrow> encoding list \<Rightarrow> (int list \<times> int list \<times> int list) option" where
  "flatten_encodings flat [] = Some flat"
| "flatten_encodings (inputIdsFlat, inputMaskFlat, inputTypeIdsFlat) (enc # rest) =
     (case encodingToInt32 (GetIds enc) (GetAttentionMask enc) (GetTypeIds enc) of
        None \<Rightarrow> None
      | Some (inputIds, inputMask, inputTypeIds) \<Rightarrow>
          flatten_encodings
            (inputIdsFlat @ inputIds, inputMaskFlat @ inputMask, inputTypeIdsFlat @ inputTypeIds) rest)"

text \<open>\<^verbatim>\<open>FlattenedSize\<close> of a shape: the length of a tensor's data.\<close>

definition FlattenedSize :: "int list \<Rightarrow> nat" where
  "FlattenedSize shape = nat (prod_list shape)"

text \<open>
  \<^verbatim>\<open>onnxEmbed\<close>: \<open>None\<close> is a panic, \<open>Some (Err e)\<close> the return \<^verbatim>\<open>nil, err\<close>, and
  \<open>Some (Ok embeddings)\<close> the return of \<^verbatim>\<open>getEmbeddings(outputTensor.GetData(),
  outputTensor.GetShape())\<close>. The deferred \<^verbatim>\<open>Destroy\<close> calls release resources of the
  binding and change nothing that is modelled.
\<close>

definition onnxEmbed :: "'f runtime \<Rightarrow> FlagEmbedding \<Rightarrow> string list \<Rightarrow> 'f list list result option" where
  "onnxEmbed rt f input =
     (case tokenizer f input of
        Err e \<Rightarrow> Some (Err e)
      | Ok encodings \<Rightarrow>
          (case flatten_encodings ([], [], []) encodings of
             None \<Rightarrow> None
           | Some (inputIdsFlat, inputMaskFlat, inputTypeIdsFlat) \<Rightarrow>
               (let inputShape = [int (length input), maxLength f] in
                case NewTensor rt inputShape inputIdsFlat of
                  Some e \<Rightarrow> Some (Err e)
                | None \<Rightarrow>
               (case NewTensor rt inputShape inputMaskFlat of
                  Some e \<Rightarrow> Some (Err e)
                | None \<Rightarrow>
               (case NewTensor rt inputShape inputTypeIdsFlat of
                  Some e \<Rightarrow> Some (Err e)
                | None \<Rightarrow>
               (let outputShape = [int (length input), maxLength f, 384] in
                case NewEmptyTensor rt outputShape of
                  Some e \<Rightarrow> Some (Err e)
                | None \<Rightarrow>
               (let path = Join rt (modelPath f) ''model_optimized.onnx'' in
                case NewAdvancedSession rt path of
                  Some e \<Rightarrow> Some (Err e)
                | None \<Rightarrow>
               (case Run rt path inputShape inputIdsFlat inputMaskFlat inputTypeIdsFlat of
                  Err e \<Rightarrow> Some (Err e)
                | Ok out \<Rightarrow>
                    map_option Ok
                      (getEmbeddings (arith rt) (map out [0..<FlattenedSize outputShape])
                         outputShape)))))))))"


section \<open>BatchScheduler: Embed\<close>

text \<open>
  The loop \<^verbatim>\<open>for i := 0; i < len(input); i += batchSize\<close> launches one goroutine per
  value of \<open>i\<close>; \<open>chunk_starts i n batchSize\<close> lists those values from \<open>i\<close> on. \<open>Embed\<close>
  has replaced a non-positive \<^verbatim>\<open>batchSize\<close> by 512 before the loop, so the guard
  \<open>0 < batchSize\<close> holds at its only use and makes the function total. Go's \<^verbatim>\<open>int\<close>
  has 64 bits, and a slice of strings has fewer than \<open>2^59\<close> elements: no sum
  \<^verbatim>\<open>i + batchSize\<close> with \<open>i < len(input)\<close> that the loop or a goroutine computes wraps
  around (\<open>i\<close> is 0 or at least \<^verbatim>\<open>batchSize\<close>), and the indices are modelled as \<open>nat\<close>.
\<close>

function chunk_starts :: "nat \<Rightarrow> nat \<Rightarrow> nat \<Rightarrow> nat list" where
  "chunk_starts i n batchSize =
     (if i < n \<and> 0 < batchSize then i # chunk_starts (i + batchSize) n batchSize else [])"
  by pat_completeness auto
termination
  by (relation "measure (\<lambda>(i, n, batchSize). n - i)") auto

declare chunk_starts.simps [simp del]

text \<open>
  \<^verbatim>\<open>end := i + batchSize; if end > len(input) { end = len(input) }\<close> and the slice
  \<^verbatim>\<open>input[i:end]\<close> that the goroutine started at \<open>i\<close> embeds.
\<close>

definition chunk_end :: "nat \<Rightarrow> nat \<Rightarrow> nat \<Rightarrow> nat" where
  "chunk_end n batchSize i = (if i + batchSize > n then n else i + batchSize)"

definition chunk :: "'a list \<Rightarrow> nat \<Rightarrow> nat \<Rightarrow> 'a list" where
  "chunk input batchSize i = take (chunk_end (length input) batchSize i - i) (drop i input)"

text \<open>
  What a goroutine does to the memory it shares with the others, one atomic action at a
  time: a send on \<^verbatim>\<open>errorCh\<close>, or the store of one element of \<^verbatim>\<open>embeddings\<close>.
\<close>

datatype 'v action = Send error | Write nat 'v

record 'v shared =
  embeddings :: "'v list"
  errorCh :: "error list"

text \<open>
  \<^verbatim>\<open>copy(embeddings[i:end], batchOut)\<close> stores \<open>min (end - i) (len batchOut)\<close> elements,
  in index order.
\<close>

definition copy_actions :: "nat \<Rightarrow> nat \<Rightarrow> 'v list \<Rightarrow> 'v action list" where
  "copy_actions i end batchOut =
     map (\<lambda>k. Write (i + k) (batchOut ! k)) [0..<min (end - i) (length batchOut)]"

text \<open>
  The actions of the goroutine started at \<open>i\<close>, given what its call of \<^verbatim>\<open>onnxEmbed\<close>
  returned: on an error it sends the error, and \<^verbatim>\<open>batchOut\<close> is nil.
\<close>

definition task_actions :: "nat \<Rightarrow> nat \<Rightarrow> nat \<Rightarrow> 'v list result \<Rightarrow> 'v action list" where
  "task_actions n batchSize i r =
     (case r of
        Err err \<Rightarrow> Send err # copy_actions i (chunk_end n batchSize i) []
      | Ok batchOut \<Rightarrow> copy_actions i (chunk_end n batchSize i) batchOut)"

text \<open>
  One action on the shared memory. \<^verbatim>\<open>errorCh\<close> is a buffered channel of capacity
  \<open>cap\<close>, and nothing receives from it before \<^verbatim>\<open>wg.Wait()\<close> returns: a send on the full
  channel blocks for ever (\<open>None\<close>).
\<close>

fun perform :: "nat \<Rightarrow> 'v action \<Rightarrow> 'v shared \<Rightarrow> 'v shared option" where
  "perform cap (Send err) s =
     (if length (errorCh s) < cap then Some (s\<lparr>errorCh := errorCh s @ [err]\<rparr>) else None)"
| "perform cap (Write i v) s = Some (s\<lparr>embeddings := (embeddings s)[i := v]\<rparr>)"

fun perform_all :: "nat \<Rightarrow> 'v action list \<Rightarrow> 'v shared \<Rightarrow> 'v shared option" where
  "perform_all cap [] s = Some s"
| "perform_all cap (a # as) s =
     (case perform cap a s of None \<Rightarrow> None | Some s' \<Rightarrow> perform_all cap as s')"

text \<open>
  The goroutines run interleaved. A schedule is a list of goroutine numbers: each entry
  lets that goroutine perform its next action (an entry naming no goroutine, or one that
  has finished, does nothing). \<^verbatim>\<open>wg.Wait()\<close> returns once every goroutine has finished:
  when the schedule is used up, the goroutines still running complete one after the
  other. Every interleaving of the goroutines' actions is the run of some schedule.
\<close>

fun run :: "nat \<Rightarrow> nat list \<Rightarrow> 'v action list list \<Rightarrow> 'v shared \<Rightarrow> 'v shared option" where
  "run cap [] tasks s = perform_all cap (concat tasks) s"
| "run cap (t # sched) tasks s =
     (if t < length tasks
      then (case tasks ! t of
              [] \<Rightarrow> run cap sched tasks s
            | a # as \<Rightarrow>
                (case perform cap a s of
                   None \<Rightarrow> None
                 | Some s' \<Rightarrow> run cap sched (tasks[t := as]) s'))
      else run cap sched tasks s)"

text \<open>
  The actions in the order in which a schedule performs them, and what a sequence of
  actions sends and stores.
\<close>

fun schedule_trace :: "nat list \<Rightarrow> 'v action list list \<Rightarrow> 'v action list" where
  "schedule_trace [] tasks = concat tasks"
| "schedule_trace (t # sched) tasks =
     (if t < length tasks
      then (case tasks ! t of
              [] \<Rightarrow> schedule_trace sched tasks
            | a # as \<Rightarrow> a # schedule_trace sched (tasks[t := as]))
      else schedule_trace sched tasks)"

fun sent :: "'v action list \<Rightarrow> error list" where
  "sent [] = []"
| "sent (Send err # as) = err # sent as"
| "sent (Write i v # as) = sent as"

fun stores :: "'v action list \<Rightarrow> (nat \<times> 'v) list" where
  "stores [] = []"
| "stores (Send err # as) = stores as"
| "stores (Write i v # as) = (i, v) # stores as"

text \<open>The stores \<open>ws\<close> performed in order on the list \<open>xs\<close>.\<close>

definition store_all :: "(nat \<times> 'v) list \<Rightarrow> 'v list \<Rightarrow> 'v list" where
  "store_all ws xs = fold (\<lambda>(i, v) ys. ys[i := v]) ws xs"

text \<open>The errors among the results of the goroutines' calls of \<^verbatim>\<open>onnxEmbed\<close>.\<close>

fun errors_of :: "'a result list \<Rightarrow> error list" where
  "errors_of [] = []"
| "errors_of (Err err # rs) = err # errors_of rs"
| "errors_of (Ok v # rs) = errors_of rs"

text \<open>
  How a call of \<^verbatim>\<open>Embed\<close> ends: it returns, a goroutine panics (which ends the
  process), or \<^verbatim>\<open>wg.Wait()\<close> never returns.
\<close>

datatype 'a outcome = Returned 'a | Crashed | Deadlocked

text \<open>
  \<^verbatim>\<open>Embed\<close> over the function \<open>onnx\<close> that each goroutine calls on its chunk
  (\<^verbatim>\<open>f.onnxEmbed\<close>), under the schedule \<open>sched\<close>. After \<^verbatim>\<open>wg.Wait()\<close> and
  \<^verbatim>\<open>close(errorCh)\<close>: \<^verbatim>\<open>if len(errorCh) > 0 { return nil, <-errorCh }\<close>, else
  \<^verbatim>\<open>return embeddings, nil\<close>. \<open>Embed_state\<close> is the shared memory when \<^verbatim>\<open>wg.Wait()\<close>
  returns.
\<close>

definition Embed_batchSize :: "int \<Rightarrow> nat" where
  "Embed_batchSize batchSize = nat (if batchSize \<le> 0 then 512 else batchSize)"

text \<open>
  What the calls of \<^verbatim>\<open>onnxEmbed\<close> of the goroutines return, in the order in which the
  goroutines are started.
\<close>

definition chunk_results ::
  "(string list \<Rightarrow> 'v list result option) \<Rightarrow> string list \<Rightarrow> int \<Rightarrow> 'v list result option list" where
  "chunk_results onnx input batchSize =
     (let bs = Embed_batchSize batchSize
      in map (\<lambda>i. onnx (chunk input bs i)) (chunk_starts 0 (length input) bs))"

definition Embed_tasks ::
  "(string list \<Rightarrow> 'v list result option) \<Rightarrow> string list \<Rightarrow> int \<Rightarrow> 'v action list list option" where
  "Embed_tasks onnx input batchSize =
     (let bs = Embed_batchSize batchSize;
          n = length input
      in those (map (\<lambda>i. map_option (task_actions n bs i) (onnx (chunk input bs i)))
                  (chunk_starts 0 n bs)))"

definition Embed_state ::
  "(string list \<Rightarrow> 'v list list result option) \<Rightarrow> string list \<Rightarrow> int \<Rightarrow> nat list \<Rightarrow>
     'v list shared outcome" where
  "Embed_state onnx input batchSize sched =
     (case Embed_tasks onnx input batchSize of
        None \<Rightarrow> Crashed
      | Some tasks \<Rightarrow>
          (case run (length input) sched tasks
                  \<lparr>embeddings = replicate (length input) [], errorCh = []\<rparr> of
             None \<Rightarrow> Deadlocked
           | Some s \<Rightarrow> Returned s))"

definition Embed_with ::
  "(string list \<Rightarrow> 'v list list result option) \<Rightarrow> string list \<Rightarrow> int \<Rightarrow> nat list \<Rightarrow>
     'v list list result outcome" where
  "Embed_with onnx input batchSize sched =
     (case Embed_state onnx input batchSize sched of
        Crashed \<Rightarrow> Crashed
      | Deadlocked \<Rightarrow> Deadlocked
      | Returned s \<Rightarrow>
          Returned (if length (errorCh s) > 0 then Err (hd (errorCh s)) else Ok (embeddings s)))"

definition Embed ::
  "'f runtime \<Rightarrow> FlagEmbedding \<Rightarrow> string list \<Rightarrow> int \<Rightarrow> nat list \<Rightarrow> 'f list list result outcome" where
  "Embed rt f input batchSize sched = Embed_with (onnxEmbed rt f) input batchSize sched"

section \<open>EmbeddingService: QueryEmbed and PassageEmbed\<close>

text \<open>
  \<^verbatim>\<open>QueryEmbed\<close> calls \<^verbatim>\<open>f.onnxEmbed([]string{query})\<close> itself, without goroutines, and
  returns \<^verbatim>\<open>data[0]\<close>, which panics on an empty \<^verbatim>\<open>data\<close>.
\<close>

definition QueryEmbed :: "'f runtime \<Rightarrow> FlagEmbedding \<Rightarrow> string \<Rightarrow> 'f list result option" where
  "QueryEmbed rt f input =
     (let query = ''query: '' @ input in
      case onnxEmbed rt f [query] of
        None \<Rightarrow> None
      | Some (Err err) \<Rightarrow> Some (Err err)
      | Some (Ok data) \<Rightarrow> (case data of [] \<Rightarrow> None | v # _ \<Rightarrow> Some (Ok v)))"

definition PassageEmbed ::
  "'f runtime \<Rightarrow> FlagEmbedding \<Rightarrow> string list \<Rightarrow> int \<Rightarrow> nat list \<Rightarrow> 'f list list result outcome" where
  "PassageEmbed rt f input batchSize sched =
     (let processedInput = map (\<lambda>v. ''passage: '' @ v) input
      in Embed rt f processedInput batchSize sched)"


subsection \<open>A concrete tokenizer and inference engine\<close>

text \<open>
  For concrete runs: a tokenizer that fails on a batch holding the string \<open>bad\<close> and
  otherwise encodes a string by its length, with a maximum length of one token, and an
  engine whose hidden state of a token is its id in all 384 dimensions; the arithmetic
  \<open>ops\<close> is a parameter.
\<close>

definition example_tokenizer :: "string list \<Rightarrow> encoding list result" where
  "example_tokenizer inputs =
     (if ''bad'' \<in> set inputs then Err (Error ''cannot encode'')
      else Ok (map (\<lambda>s. \<lparr>GetIds = [int (length s)], GetAttentionMask = [1], GetTypeIds = [0]\<rparr>)
                 inputs))"

definition example_embedding :: FlagEmbedding where
  "example_embedding =
     \<lparr>tokenizer = example_tokenizer, model = ''fast-bge-small-en'', maxLength = 1,
      modelPath = ''local_cache/fast-bge-small-en''\<rparr>"

definition example_runtime :: "'f float32_ops \<Rightarrow> (int \<Rightarrow> 'f) \<Rightarrow> 'f runtime" where
  "example_runtime ops of_id =
     \<lparr>arith = ops,
      Join = (\<lambda>dir name. dir @ ''/'' @ name),
      NewTensor = (\<lambda>shape data. None),
      NewEmptyTensor = (\<lambda>shape. None),
      NewAdvancedSession = (\<lambda>path. None),
      Run = (\<lambda>path shape ids mask types. Ok (\<lambda>k. of_id (ids ! (k div 384))))\<rparr>"

section \<open>ArtifactStore: retrieveModel, downloadFromGcs and untar\<close>

text \<open>
  The file system and the network are explicit. A world is the state \<open>files\<close> of the file
  system (of a type \<open>'fs\<close> that the operating system's operations act on) and the \<open>trace\<close>
  of every input/output operation performed so far, oldest first.
\<close>

datatype io_event =
    EvStat string
  | EvGet string
  | EvBodyClose
  | EvProgressBar string
  | EvGzipNewReader
  | EvMkdirAll string
  | EvCreate string
  | EvCopy string

record 'fs world =
  files :: 'fs
  trace :: "io_event list"

text \<open>
  \<^verbatim>\<open>os.Stat\<close> returns a nil error, an error for which
  \<^verbatim>\<open>errors.Is(err, fs.ErrNotExist)\<close> holds, or another error.
\<close>

datatype stat_result = StatOk | StatNotExist | StatOther error

text \<open>The fields of \<^verbatim>\<open>http.Response\<close> that are read; \<open>'b\<close> is a stream of bytes.\<close>

record 'b response =
  StatusCode :: int
  Status :: string
  ContentLength :: int
  Body :: 'b

text \<open>
  What \<^verbatim>\<open>tarReader.Next()\<close> yields, call after call: an entry (the fields \<^verbatim>\<open>Name\<close> and
  \<^verbatim>\<open>Typeflag\<close> of its header, and its contents) or an error; the end of the list is
  \<^verbatim>\<open>io.EOF\<close>.
\<close>

datatype typeflag = TypeReg | TypeDir | TypeOther

record header =
  Name :: string
  Typeflag :: typeflag

datatype 'b tar_item = TarEntry header 'b | TarError error

text \<open>
  The operating system, the network and the archive decoders, as parameters.
  \<open>http_Get\<close> sees the trace so far, so a server may answer differently over time.
  \<open>gzip_tar\<close> is \<^verbatim>\<open>gzip.NewReader\<close> followed by \<^verbatim>\<open>tar.NewReader\<close>: an error of the
  former, or the items the latter yields. \<open>os_MkdirAll\<close>, \<open>os_Create\<close> and \<open>io_Copy\<close> return
  an error or nothing, and the new state of the file system.
\<close>

record ('fs, 'b) os =
  filepath_Join :: "string \<Rightarrow> string \<Rightarrow> string"
  filepath_Dir :: "string \<Rightarrow> string"
  os_Stat :: "string \<Rightarrow> 'fs \<Rightarrow> stat_result"
  os_MkdirAll :: "string \<Rightarrow> 'fs \<Rightarrow> error option \<times> 'fs"
  os_Create :: "string \<Rightarrow> 'fs \<Rightarrow> error option \<times> 'fs"
  io_Copy :: "string \<Rightarrow> 'b \<Rightarrow> 'fs \<Rightarrow> error option \<times> 'fs"
  http_Get :: "io_event list \<Rightarrow> string \<Rightarrow> 'b response result"
  progressbar_NewReader :: "'b \<Rightarrow> 'b"
  gzip_tar :: "'b \<Rightarrow> 'b tar_item list result"

text \<open>A file-system operation in a world: it is recorded in the trace.\<close>

definition fs_op ::
  "io_event \<Rightarrow> ('fs \<Rightarrow> error option \<times> 'fs) \<Rightarrow> 'fs world \<Rightarrow> error option \<times> 'fs world" where
  "fs_op ev operation w =
     (case operation (files w) of
        (err, fs') \<Rightarrow> (err, \<lparr>files = fs', trace = trace w @ [ev]\<rparr>))"

text \<open>
  The loop of \<^verbatim>\<open>untar\<close> over the entries: a directory entry is created with
  \<^verbatim>\<open>os.MkdirAll(path)\<close>; for a regular file, \<^verbatim>\<open>os.MkdirAll(filepath.Dir(path))\<close>,
  \<^verbatim>\<open>os.Create(path)\<close> and \<^verbatim>\<open>io.Copy(file, tarReader)\<close>; another entry is skipped. The
  first error is returned. (The deferred \<^verbatim>\<open>file.Close()\<close> and \<^verbatim>\<open>archive.Close()\<close> do
  not change what is modelled.)
\<close>

fun untar_loop ::
  "('fs, 'b) os \<Rightarrow> string \<Rightarrow> 'b tar_item list \<Rightarrow> 'fs world \<Rightarrow> error option \<times> 'fs world" where
  "untar_loop sys target [] w = (None, w)"
| "untar_loop sys target (TarError err # rest) w = (Some err, w)"
| "untar_loop sys target (TarEntry hdr contents # rest) w =
     (let path = filepath_Join sys target (Name hdr) in
      case Typeflag hdr of
        TypeDir \<Rightarrow>
          (case fs_op (EvMkdirAll path) (os_MkdirAll sys path) w of
             (Some err, w1) \<Rightarrow> (Some err, w1)
           | (None, w1) \<Rightarrow> untar_loop sys target rest w1)
      | TypeReg \<Rightarrow>
          (case fs_op (EvMkdirAll (filepath_Dir sys path)) (os_MkdirAll sys (filepath_Dir sys path)) w of
             (Some err, w1) \<Rightarrow> (Some err, w1)
           | (None, w1) \<Rightarrow>
               (case fs_op (EvCreate path) (os_Create sys path) w1 of
                  (Some err, w2) \<Rightarrow> (Some err, w2)
                | (None, w2) \<Rightarrow>
                    (case fs_op (EvCopy path) (io_Copy sys path contents) w2 of
                       (Some err, w3) \<Rightarrow> (Some err, w3)
                     | (None, w3) \<Rightarrow> untar_loop sys target rest w3)))
      | TypeOther \<Rightarrow> untar_loop sys target rest w)"

definition untar :: "('fs, 'b) os \<Rightarrow> 'b \<Rightarrow> string \<Rightarrow> 'fs world \<Rightarrow> error option \<times> 'fs world" where
  "untar sys tarball target w =
     (let w0 = w\<lparr>trace := trace w @ [EvGzipNewReader]\<rparr> in
      case gzip_tar sys tarball of
        Err err \<Rightarrow> (Some err, w0)
      | Ok items \<Rightarrow> untar_loop sys target items w0)"

text \<open>
  \<^verbatim>\<open>downloadFromGcs\<close>. The URL is
  \<^verbatim>\<open>fmt.Sprintf("https://storage.googleapis.com/qdrant-fastembed/%s.tar.gz", model)\<close>; a
  status code outside 200..299 returns
  \<^verbatim>\<open>fmt.Errorf("model download failed: %s", response.Status)\<close>. The deferred
  \<^verbatim>\<open>response.Body.Close()\<close> runs at every return after a successful \<^verbatim>\<open>http.Get\<close>.
\<close>

definition downloadURL :: "string \<Rightarrow> string" where
  "downloadURL embeddingModel = ''https://storage.googleapis.com/qdrant-fastembed/'' @ embeddingModel @ ''.tar.gz''"

definition close_body :: "'fs world \<Rightarrow> 'fs world" where
  "close_body w = w\<lparr>trace := trace w @ [EvBodyClose]\<rparr>"

definition downloadFromGcs ::
  "('fs, 'b) os \<Rightarrow> string \<Rightarrow> string \<Rightarrow> bool \<Rightarrow> 'fs world \<Rightarrow> string result \<times> 'fs world" where
  "downloadFromGcs sys embeddingModel cacheDir showDownloadProgress w =
     (let w1 = w\<lparr>trace := trace w @ [EvGet (downloadURL embeddingModel)]\<rparr> in
      case http_Get sys (trace w) (downloadURL embeddingModel) of
        Err err \<Rightarrow> (Err err, w1)
      | Ok response \<Rightarrow>
          if StatusCode response < 200 \<or> StatusCode response > 299
          then (Err (Error (''model download failed: '' @ Status response)), close_body w1)
          else
            (case (if showDownloadProgress
                   then untar sys (progressbar_NewReader sys (Body response)) cacheDir
                          (w1\<lparr>trace := trace w1 @ [EvProgressBar (''Downloading '' @ embeddingModel)]\<rparr>)
                   else untar sys (Body response) cacheDir w1) of
               (Some err, w2) \<Rightarrow> (Err err, close_body w2)
             | (None, w2) \<Rightarrow> (Ok (filepath_Join sys cacheDir embeddingModel), close_body w2)))"

text \<open>
  \<^verbatim>\<open>retrieveModel\<close>: the path is returned unless the error of \<^verbatim>\<open>os.Stat\<close> is a
  not-exist error.
\<close>

definition retrieveModel ::
  "('fs, 'b) os \<Rightarrow> string \<Rightarrow> string \<Rightarrow> bool \<Rightarrow> 'fs world \<Rightarrow> string result \<times> 'fs world" where
  "retrieveModel sys embeddingModel cacheDir showDownloadProgress w =
     (let path = filepath_Join sys cacheDir embeddingModel;
          w1 = w\<lparr>trace := trace w @ [EvStat path]\<rparr>
      in if os_Stat sys path (files w) \<noteq> StatNotExist
         then (Ok path, w1)
         else downloadFromGcs sys embeddingModel cacheDir showDownloadProgress w1)"


text \<open>The number of HTTP requests in a trace.\<close>

fun network_requests :: "io_event list \<Rightarrow> nat" where
  "network_requests [] = 0"
| "network_requests (EvGet url # evs) = Suc (network_requests evs)"
| "network_requests (ev # evs) = network_requests evs"

text \<open>
  Two resolutions of the same model with the same cache directory, one after the other.
\<close>

definition resolve_twice ::
  "('fs, 'b) os \<Rightarrow> string \<Rightarrow> string \<Rightarrow> bool \<Rightarrow> 'fs world \<Rightarrow>
     (string result \<times> string result) \<times> 'fs world" where
  "resolve_twice sys embeddingModel cacheDir showDownloadProgress w =
     (case retrieveModel sys embeddingModel cacheDir showDownloadProgress w of
        (r1, w1) \<Rightarrow>
          (case retrieveModel sys embeddingModel cacheDir showDownloadProgress w1 of
             (r2, w2) \<Rightarrow> ((r1, r2), w2)))"

subsection \<open>Two concrete systems\<close>

text \<open>
  A small operating system for concrete runs: the file system is the list of the paths
  that exist, \<^verbatim>\<open>os.Stat\<close> fails with \<open>permission denied\<close> below \<^verbatim>\<open>/root\<close>, paths are
  joined with a slash, and an archive is the list of the names of the directories it
  holds. Its server answers every request with the response \<open>resp\<close>.
\<close>

definition list_os :: "string list response \<Rightarrow> (string list, string list) os" where
  "list_os resp =
     \<lparr>filepath_Join = (\<lambda>dir name. dir @ ''/'' @ name),
      filepath_Dir = (\<lambda>path. path),
      os_Stat = (\<lambda>path fs.
        if take 5 path = ''/root'' then StatOther (Error ''permission denied'')
        else if path \<in> set fs then StatOk else StatNotExist),
      os_MkdirAll = (\<lambda>path fs. (None, path # fs)),
      os_Create = (\<lambda>path fs. (None, path # fs)),
      io_Copy = (\<lambda>path contents fs. (None, fs)),
      http_Get = (\<lambda>history url. Ok resp),
      progressbar_NewReader = (\<lambda>body. body),
      gzip_tar = (\<lambda>body. Ok (map (\<lambda>name. TarEntry \<lparr>Name = name, Typeflag = TypeDir\<rparr> []) body))\<rparr>"

definition not_found :: "string list response" where
  "not_found = \<lparr>StatusCode = 404, Status = ''404 Not Found'', ContentLength = 0, Body = []\<rparr>"

definition model_archive :: "string list response" where
  "model_archive =
     \<lparr>StatusCode = 200, Status = ''200 OK'', ContentLength = 1, Body = [''fast-bge-small-en'']\<rparr>"

definition other_archive :: "string list response" where
  "other_archive =
     \<lparr>StatusCode = 200, Status = ''200 OK'', ContentLength = 1, Body = [''another-model'']\<rparr>"

definition empty_world :: "string list world" where
  "empty_world = \<lparr>files = [], trace = []\<rparr>"

section \<open>IEEE 754 binary32 arithmetic, as Go's float32 performs it\<close>

text \<open>
  A float32 value is a NaN, an infinity with its sign, or a finite value: its sign
  (\<open>True\<close> for negative, so that there are two zeros) and its magnitude, a real number that
  is representable in binary32. Every operation rounds the exact result to the nearest
  representable value, ties to even (Go's only rounding mode); each Go operation is
  rounded on its own (the compiler for amd64 does not fuse \<^verbatim>\<open>norm + val*val\<close>).
\<close>

datatype f32 = NaN | Infinity bool | Fin bool real

text \<open>\<open>pow2 e\<close> is \<open>2\<close> to the power \<open>e\<close>, for an integer \<open>e\<close>.\<close>

definition pow2 :: "int \<Rightarrow> real" where
  "pow2 e = (if 0 \<le> e then 2 ^ nat e else 1 / 2 ^ nat (- e))"

text \<open>The exponent of a positive real \<open>x\<close>: the integer \<open>e\<close> with \<open>2^e \<le> x < 2^(e+1)\<close>.\<close>

definition float_exponent :: "real \<Rightarrow> int" where
  "float_exponent x = (if 1 \<le> x then bitlen \<lfloor>x\<rfloor> - 1 else - bitlen (\<lceil>1 / x\<rceil> - 1))"

definition round_half_even :: "real \<Rightarrow> int" where
  "round_half_even x =
     (let f = \<lfloor>x\<rfloor>; r = x - of_int f
      in if r < 1 / 2 then f else if 1 / 2 < r then f + 1 else if even f then f else f + 1)"

text \<open>
  The magnitude \<open>x \<ge> 0\<close> rounded to \<open>p\<close> significant bits, with the exponent no smaller than
  \<open>emin\<close> (below it the spacing stays that of the subnormal numbers). The result may be
  the power of two above the largest finite number: the caller turns it into an infinity.
\<close>

definition round_mag :: "nat \<Rightarrow> int \<Rightarrow> real \<Rightarrow> real" where
  "round_mag p emin x =
     (if x = 0 then 0
      else let e = max (float_exponent x) emin;
               ulp = pow2 (e - int p + 1)
           in of_int (round_half_even (x / ulp)) * ulp)"

text \<open>binary32: 24 significant bits, exponents from -126 to 127.\<close>

definition round32 :: "bool \<Rightarrow> real \<Rightarrow> f32" where
  "round32 sign x = (let r = round_mag 24 (- 126) x in if 2 ^ 128 \<le> r then Infinity sign else Fin sign r)"

definition signed :: "bool \<Rightarrow> real \<Rightarrow> real" where
  "signed sign x = (if sign then - x else x)"

fun add32 :: "f32 \<Rightarrow> f32 \<Rightarrow> f32" where
  "add32 NaN _ = NaN"
| "add32 _ NaN = NaN"
| "add32 (Infinity s) (Infinity t) = (if s = t then Infinity s else NaN)"
| "add32 (Infinity s) (Fin _ _) = Infinity s"
| "add32 (Fin _ _) (Infinity t) = Infinity t"
| "add32 (Fin s a) (Fin t b) =
     (let x = signed s a + signed t b
      in if x = 0 then Fin (s \<and> t) 0 else round32 (x < 0) \<bar>x\<bar>)"

fun mul32 :: "f32 \<Rightarrow> f32 \<Rightarrow> f32" where
  "mul32 NaN _ = NaN"
| "mul32 _ NaN = NaN"
| "mul32 (Infinity s) (Infinity t) = Infinity (s \<noteq> t)"
| "mul32 (Infinity s) (Fin t b) = (if b = 0 then NaN else Infinity (s \<noteq> t))"
| "mul32 (Fin s a) (Infinity t) = (if a = 0 then NaN else Infinity (s \<noteq> t))"
| "mul32 (Fin s a) (Fin t b) = round32 (s \<noteq> t) (a * b)"

fun div32 :: "f32 \<Rightarrow> f32 \<Rightarrow> f32" where
  "div32 NaN _ = NaN"
| "div32 _ NaN = NaN"
| "div32 (Infinity s) (Infinity t) = NaN"
| "div32 (Infinity s) (Fin t b) = Infinity (s \<noteq> t)"
| "div32 (Fin s a) (Infinity t) = Fin (s \<noteq> t) 0"
| "div32 (Fin s a) (Fin t b) =
     (if b = 0 then (if a = 0 then NaN else Infinity (s \<noteq> t)) else round32 (s \<noteq> t) (a / b))"

text \<open>The integer square root: the largest \<open>r \<ge> 0\<close> with \<open>r * r \<le> n\<close>, for \<open>n \<ge> 0\<close>.\<close>

function isqrt :: "int \<Rightarrow> int" where
  "isqrt n =
     (if n < 1 then 0
      else let r = 2 * isqrt (n div 4) in if (r + 1) * (r + 1) \<le> n then r + 1 else r)"
  by pat_completeness auto
termination
  by (relation "measure nat") auto

declare isqrt.simps [simp del]

text \<open>
  The square root of a positive \<open>x\<close>, rounded to binary64 (53 significant bits; the square
  root of a binary32 number is far from the subnormal range of binary64). With \<open>e\<close> the
  exponent of the root and \<open>ulp = 2^(e - 52)\<close>, the root in units of \<open>ulp\<close> is the square
  root of \<open>t = x / ulp^2\<close>: its integer part is \<open>isqrt \<lfloor>t\<rfloor>\<close>, and it lies below, above or
  on the midpoint \<open>f + 1/2\<close> as \<open>t\<close> does with respect to \<open>(f + 1/2)^2\<close>.
\<close>

definition sqrt64_mag :: "real \<Rightarrow> real" where
  "sqrt64_mag x =
     (let e = float_exponent x div 2;
          ulp = pow2 (e - 52);
          t = x / (ulp * ulp);
          f = isqrt \<lfloor>t\<rfloor>;
          mid = (of_int f + 1 / 2) * (of_int f + 1 / 2);
          m = (if t < mid then f else if mid < t then f + 1 else if even f then f else f + 1)
      in of_int m * ulp)"

text \<open>
  \<^verbatim>\<open>float32(math.Sqrt(float64(x)))\<close>: the conversion to float64 is exact,
  \<^verbatim>\<open>math.Sqrt\<close> is the correctly rounded square root of binary64 (NaN for a negative
  argument, the argument itself for a zero or \<open>+Inf\<close>), and the conversion back rounds to
  binary32.
\<close>

fun sqrt32 :: "f32 \<Rightarrow> f32" where
  "sqrt32 NaN = NaN"
| "sqrt32 (Infinity s) = (if s then NaN else Infinity False)"
| "sqrt32 (Fin s a) =
     (if a = 0 then Fin s 0 else if s then NaN else round32 False (sqrt64_mag a))"

definition ieee32 :: "f32 float32_ops" where
  "ieee32 =
     \<lparr>f32_zero = Fin False 0, f32_add = add32, f32_mul = mul32, f32_div = div32,
      f32_sqrt = sqrt32, f32_epsilon = round32 False (1 / 10 ^ 12)\<rparr>"



text \<open>The two zeros of binary32.\<close>

definition is_zero :: "f32 \<Rightarrow> bool" where
  "is_zero x = (x = Fin False 0 \<or> x = Fin True 0)"

section \<open>Properties of the Normalizer\<close>

lemma wrap64_id: "- (2 ^ 63) \<le> k \<Longrightarrow> k < 2 ^ 63 \<Longrightarrow> wrap64 k = k"
  by (simp add: wrap64_def signed_take_bit_int_eq_self)

lemma first_token_offsets:
  assumes i: "0 \<le> i" "i < x" and y: "0 < y" and z: "0 \<le> z" and size: "x * y * z < 2 ^ 63"
  shows "mul64 (mul64 i y) z = i * y * z"
    and "add64 (i * y * z) z = i * y * z + z"
    and "i * y * z + z \<le> x * y * z"
proof -
  have iy: "i * y + y \<le> x * y"
  proof -
    have "(i + 1) * y \<le> x * y" using i y by (intro mult_right_mono) auto
    then show ?thesis by (simp add: algebra_simps)
  qed
  have le: "i * y * z + z \<le> x * y * z"
  proof -
    have "(i * y + y) * z \<le> x * y * z" using iy z by (intro mult_right_mono) auto
    moreover have "z \<le> y * z" using y z by (simp add: mult_le_cancel_right1)
    ultimately show ?thesis by (simp add: algebra_simps)
  qed
  have nn: "0 \<le> i * y * z" using i y z by simp
  show "i * y * z + z \<le> x * y * z" by (rule le)
  show "mul64 (mul64 i y) z = i * y * z"
  proof (cases "z = 0")
    case True
    then show ?thesis by (simp add: mul64_def wrap64_def)
  next
    case False
    then have z1: "1 \<le> z" using z by simp
    have "0 \<le> i * y" using i y by simp
    then have "i * y * 1 \<le> i * y * z" using z1 by (intro mult_left_mono) auto
    then have "i * y \<le> i * y * z" by simp
    then have "i * y < 2 ^ 63" using le size z by linarith
    moreover have "0 \<le> i * y" using i y by simp
    ultimately have "mul64 i y = i * y" by (simp add: mul64_def wrap64_id)
    moreover have "i * y * z < 2 ^ 63" using le size z by linarith
    ultimately show ?thesis using nn by (simp add: mul64_def wrap64_id)
  qed
  show "add64 (i * y * z) z = i * y * z + z"
    using le size nn z by (simp add: add64_def wrap64_id)
qed

lemma slice_first_token:
  assumes "0 \<le> i" "i < x" "0 < y" "0 \<le> z" "int (length data) = x * y * z"
  shows "slice data (i * y * z) (i * y * z + z) = Some (take (nat z) (drop (nat (i * y * z)) data))"
proof -
  have iy: "(i + 1) * y \<le> x * y" using assms by (intro mult_right_mono) auto
  have "(i * y + y) * z \<le> x * y * z" using iy assms by (intro mult_right_mono) (auto simp: algebra_simps)
  moreover have "z \<le> y * z" using assms by (simp add: mult_le_cancel_right1)
  ultimately have "i * y * z + z \<le> x * y * z" by (simp add: algebra_simps)
  moreover have "0 \<le> i * y * z" using assms by simp
  ultimately show ?thesis using assms by (simp add: slice_def)
qed

lemma getEmbeddings_loop_first_token:
  assumes "\<And>i. i \<in> set idx \<Longrightarrow> 0 \<le> i \<and> i < x"
    and "0 < y" "0 \<le> z" "int (length data) = x * y * z" "x * y * z < 2 ^ 63"
  shows "getEmbeddings_loop ops data y z idx =
           Some (map (\<lambda>i. normalize_vec ops (take (nat z) (drop (nat (i * y * z)) data))) idx)"
  using assms(1)
proof (induction idx)
  case Nil
  then show ?case by simp
next
  case (Cons i rest)
  have i: "0 \<le> i" "i < x" using Cons.prems by auto
  have rest: "getEmbeddings_loop ops data y z rest =
           Some (map (\<lambda>i. normalize_vec ops (take (nat z) (drop (nat (i * y * z)) data))) rest)"
    using Cons by simp
  show ?case
    using rest first_token_offsets(1,2) [OF i assms(2,3,5)] slice_first_token [OF i assms(2,3,4)]
    by simp
qed

section \<open>Properties of the chunking\<close>

lemma Embed_batchSize_pos: "0 < Embed_batchSize batchSize"
  by (simp add: Embed_batchSize_def)

lemma chunk_starts_less: "s \<in> set (chunk_starts i n bs) \<Longrightarrow> s < n"
proof (induction i n bs rule: chunk_starts.induct)
  case (1 i n bs)
  then show ?case
    by (cases "i < n \<and> 0 < bs") (auto simp add: chunk_starts.simps [of i n bs])
qed

lemma chunk_starts_nth:
  "k < length (chunk_starts i n bs) \<Longrightarrow> chunk_starts i n bs ! k = i + k * bs"
proof (induction i n bs arbitrary: k rule: chunk_starts.induct)
  case (1 i n bs)
  show ?case
  proof (cases "i < n \<and> 0 < bs")
    case True
    then have eq: "chunk_starts i n bs = i # chunk_starts (i + bs) n bs"
      by (subst chunk_starts.simps) simp
    show ?thesis
    proof (cases k)
      case 0
      then show ?thesis using eq by simp
    next
      case (Suc j)
      then have "j < length (chunk_starts (i + bs) n bs)" using "1.prems" eq by simp
      then have "chunk_starts (i + bs) n bs ! j = i + bs + j * bs" using "1.IH" True by simp
      then show ?thesis using eq Suc by simp
    qed
  next
    case False
    then have "chunk_starts i n bs = []" by (subst chunk_starts.simps) simp
    then show ?thesis using "1.prems" by simp
  qed
qed

lemma chunk_starts_length:
  "0 < bs \<Longrightarrow> length (chunk_starts i n bs) = (n - i + bs - 1) div bs"
proof (induction i n bs rule: chunk_starts.induct)
  case (1 i n bs)
  show ?case
  proof (cases "i < n")
    case True
    then have eq: "chunk_starts i n bs = i # chunk_starts (i + bs) n bs"
      using "1.prems" by (subst chunk_starts.simps) simp
    have IH: "length (chunk_starts (i + bs) n bs) = (n - (i + bs) + bs - 1) div bs"
      using "1.IH" "1.prems" True by simp
    show ?thesis
    proof (cases "i + bs \<le> n")
      case le: True
      define m where "m = n - (i + bs) + bs - 1"
      have "n - i + bs - 1 = m + bs" using le "1.prems" True by (simp add: m_def)
      moreover have "(m + bs) div bs = Suc (m div bs)" using "1.prems" by simp
      ultimately have "(n - i + bs - 1) div bs = Suc ((n - (i + bs) + bs - 1) div bs)"
        by (simp add: m_def)
      then show ?thesis using eq IH by simp
    next
      case gt: False
      then have a: "n - (i + bs) + bs - 1 = bs - 1" by simp
      have b: "(n - i + bs - 1) div bs = 1"
      proof -
        have "bs \<le> n - i + bs - 1" using True by simp
        moreover have "n - i + bs - 1 < 2 * bs" using gt True by simp
        ultimately show ?thesis
          using "1.prems" by (intro div_nat_eqI) auto
      qed
      show ?thesis using eq IH a b "1.prems" by simp
    qed
  next
    case False
    then have "chunk_starts i n bs = []" by (subst chunk_starts.simps) simp
    moreover have "(n - i + bs - 1) div bs = 0" using False "1.prems" by simp
    ultimately show ?thesis by simp
  qed
qed

lemma chunk_eq_take_drop: "chunk input bs i = take bs (drop i input)"
proof (cases "i + bs > length input")
  case True
  then show ?thesis by (simp add: chunk_def chunk_end_def)
next
  case False
  then show ?thesis by (simp add: chunk_def chunk_end_def)
qed

lemma concat_chunks_from:
  "n = length input \<Longrightarrow> 0 < bs \<Longrightarrow> concat (map (chunk input bs) (chunk_starts i n bs)) = drop i input"
proof (induction i n bs rule: chunk_starts.induct)
  case (1 i n bs)
  show ?case
  proof (cases "i < n \<and> 0 < bs")
    case True
    then have eq: "chunk_starts i n bs = i # chunk_starts (i + bs) n bs"
      by (subst chunk_starts.simps) simp
    have rest: "concat (map (chunk input bs) (chunk_starts (i + bs) n bs)) = drop (i + bs) input"
      using "1.IH" True "1.prems" by simp
    have "concat (map (chunk input bs) (chunk_starts i n bs)) =
            chunk input bs i @ drop (i + bs) input"
      using eq rest by simp
    also have "\<dots> = take bs (drop i input) @ drop bs (drop i input)"
      by (simp add: chunk_eq_take_drop add.commute)
    also have "\<dots> = drop i input"
      by (rule append_take_drop_id)
    finally show ?thesis .
  next
    case False
    then have "chunk_starts i n bs = []" by (subst chunk_starts.simps) simp
    moreover have "n \<le> i" using False "1.prems" by auto
    ultimately show ?thesis using "1.prems" by simp
  qed
qed

section \<open>Properties of schedules\<close>

lemma run_eq_trace: "run cap sched tasks s = perform_all cap (schedule_trace sched tasks) s"
proof (induction sched arbitrary: tasks s)
  case Nil
  then show ?case by simp
next
  case (Cons t sched)
  then show ?case by (auto split: list.splits option.splits)
qed

lemma mset_concat_update:
  assumes "t < length tasks" "tasks ! t = a # as"
  shows "mset (concat (tasks[t := as])) + {#a#} = mset (concat tasks)"
proof -
  have "tasks = take t tasks @ (a # as) # drop (Suc t) tasks"
    using assms by (metis id_take_nth_drop)
  moreover have "tasks[t := as] = take t tasks @ as # drop (Suc t) tasks"
    using assms by (simp add: upd_conv_take_nth_drop)
  ultimately have "mset (concat tasks) = mset (concat (take t tasks)) + mset (a # as) + mset (concat (drop (Suc t) tasks))"
    and "mset (concat (tasks[t := as])) = mset (concat (take t tasks)) + mset as + mset (concat (drop (Suc t) tasks))"
    by (metis concat.simps(2) concat_append mset_append union_assoc)+
  then show ?thesis by simp
qed

lemma mset_schedule_trace: "mset (schedule_trace sched tasks) = mset (concat tasks)"
proof (induction sched arbitrary: tasks)
  case Nil
  then show ?case by simp
next
  case (Cons t sched)
  show ?case
  proof (cases "t < length tasks")
    case False
    then show ?thesis using Cons by simp
  next
    case True
    show ?thesis
    proof (cases "tasks ! t")
      case Nil
      then show ?thesis using True Cons by simp
    next
      case (Cons a as)
      have "mset (schedule_trace sched (tasks[t := as])) = mset (concat (tasks[t := as]))"
        by (rule Cons.IH)
      then show ?thesis
        using True Cons mset_concat_update [OF True Cons] by simp
    qed
  qed
qed

lemma getEmbeddings_result:
  assumes "int (length data) = x * y * z" and "0 \<le> x" and "0 < y" and "0 \<le> z"
    and "x * y * z < 2 ^ 63"
  shows "getEmbeddings ops data [x, y, z] =
           Some (map (\<lambda>i. normalize_vec ops (take (nat z) (drop (i * nat y * nat z) data)))
                   [0..<nat x])"
proof -
  have idx: "\<And>i. i \<in> set (map int [0..<nat x]) \<Longrightarrow> 0 \<le> i \<and> i < x"
    using assms(2) by auto
  have off: "nat (int i * y * z) = i * nat y * nat z" for i
    using assms(3,4) by (simp add: nat_mult_distrib)
  have "getEmbeddings ops data [x, y, z] =
          getEmbeddings_loop ops data y z (map int [0..<nat x])"
    using assms(2) by (simp add: getEmbeddings_def)
  also have "\<dots> = Some (map (\<lambda>i. normalize_vec ops (take (nat z) (drop (nat (i * y * z)) data)))
                        (map int [0..<nat x]))"
    by (rule getEmbeddings_loop_first_token [OF idx assms(3,4,1,5)])
  also have "\<dots> = Some (map (\<lambda>i. normalize_vec ops (take (nat z) (drop (i * nat y * nat z) data)))
                        [0..<nat x])"
    by (simp add: o_def off)
  finally show ?thesis .
qed

section \<open>The embedding of an input is the normalized first-token slice\<close>



section \<open>Embed partitions its input into contiguous chunks\<close>

lemma chunk_length:
  "i < length input \<Longrightarrow> 0 < bs \<Longrightarrow> length (chunk input bs i) = min bs (length input - i)"
  by (simp add: chunk_eq_take_drop)

text \<open>
  Claim C4. \<^verbatim>\<open>Embed\<close> replaces a \<^verbatim>\<open>batchSize\<close> that is not positive by 512. Its goroutines
  call \<^verbatim>\<open>onnxEmbed\<close> on the slices \<open>chunks\<close> of the input that start at \<open>0, bs, 2 * bs, ...\<close>:
  chunk \<open>k\<close> is the \<open>bs\<close> inputs from index \<open>k * bs\<close> on (fewer at the end of the input),
  the chunks in order make up the input, there are \<open>\<lceil>len(input) / bs\<rceil>\<close> of them, every chunk
  but the last has exactly \<open>bs\<close> elements, and the last has between 1 and \<open>bs\<close>.
\<close>

theorem Embed_partitions_input:
  "let bs = Embed_batchSize batchSize;
       starts = chunk_starts 0 (length input) bs;
       chunks = map (chunk input bs) starts
   in bs = (if batchSize \<le> 0 then 512 else nat batchSize)
      \<and> Embed_tasks onnx input batchSize =
          those (map (\<lambda>(i, c). map_option (task_actions (length input) bs i) (onnx c)) (zip starts chunks))
      \<and> concat chunks = input
      \<and> length chunks = (length input + bs - 1) div bs
      \<and> (\<forall>k < length chunks. starts ! k = k * bs \<and> chunks ! k = take bs (drop (k * bs) input))
      \<and> (\<forall>k. Suc k < length chunks \<longrightarrow> length (chunks ! k) = bs)
      \<and> (\<forall>k. Suc k = length chunks \<longrightarrow> 0 < length (chunks ! k) \<and> length (chunks ! k) \<le> bs)"
proof -
  define bs where "bs = Embed_batchSize batchSize"
  define starts where "starts = chunk_starts 0 (length input) bs"
  define chunks where "chunks = map (chunk input bs) starts"
  have bs: "0 < bs" by (simp add: bs_def Embed_batchSize_pos)
  have len: "length chunks = length starts" by (simp add: chunks_def)
  have c1: "bs = (if batchSize \<le> 0 then 512 else nat batchSize)"
    by (simp add: bs_def Embed_batchSize_def)
  have zip: "zip starts chunks = map (\<lambda>i. (i, chunk input bs i)) starts"
    unfolding chunks_def by (induction starts) auto
  have c2: "Embed_tasks onnx input batchSize =
          those (map (\<lambda>(i, c). map_option (task_actions (length input) bs i) (onnx c)) (zip starts chunks))"
    by (simp add: Embed_tasks_def Let_def zip o_def bs_def [symmetric] starts_def [symmetric])
  have c3: "concat chunks = input"
    using concat_chunks_from [of "length input" input bs 0] bs by (simp add: chunks_def starts_def)
  have c4: "length chunks = (length input + bs - 1) div bs"
    using chunk_starts_length [OF bs, of 0 "length input"] by (simp add: len starts_def)
  have nth: "starts ! k = k * bs" if "k < length chunks" for k
    using chunk_starts_nth [of k 0 "length input" bs] that by (simp add: len starts_def)
  have less: "k * bs < length input" if "k < length chunks" for k
  proof -
    have "starts ! k \<in> set starts" using that len by simp
    then show ?thesis using chunk_starts_less nth [OF that] by (simp add: starts_def)
  qed
  have c5: "\<forall>k < length chunks. starts ! k = k * bs \<and> chunks ! k = take bs (drop (k * bs) input)"
    using nth len by (simp add: chunks_def chunk_eq_take_drop)
  have c6: "\<forall>k. Suc k < length chunks \<longrightarrow> length (chunks ! k) = bs"
  proof (intro allI impI)
    fix k assume k: "Suc k < length chunks"
    then have "Suc k * bs < length input" by (rule less)
    then have "bs \<le> length input - k * bs" by simp
    moreover have "chunks ! k = take bs (drop (k * bs) input)" using c5 k by simp
    ultimately show "length (chunks ! k) = bs" by simp
  qed
  have c7: "\<forall>k. Suc k = length chunks \<longrightarrow> 0 < length (chunks ! k) \<and> length (chunks ! k) \<le> bs"
  proof (intro allI impI)
    fix k assume k: "Suc k = length chunks"
    then have "k * bs < length input" using less [of k] by simp
    moreover have "chunks ! k = take bs (drop (k * bs) input)" using c5 k by simp
    ultimately show "0 < length (chunks ! k) \<and> length (chunks ! k) \<le> bs" using bs by simp
  qed
  show ?thesis
    unfolding Let_def bs_def [symmetric] starts_def [symmetric] chunks_def [symmetric]
    using c1 c2 c3 c4 c5 c6 c7 by blast
qed

text \<open>
  Five inputs and \<^verbatim>\<open>batchSize\<close> 2 give the chunks of sizes 2, 2 and 1; the batch sizes 0 and
  -3 give 512.
\<close>

lemma list_of_length_3: "length xs = 3 \<Longrightarrow> xs = [xs ! 0, xs ! 1, xs ! 2]"
  by (auto simp: numeral_3_eq_3 numeral_2_eq_2 length_Suc_conv)

theorem Embed_partitions_input_witness:
  "map (chunk [''a'', ''b'', ''c'', ''d'', ''e''] (Embed_batchSize 2))
       (chunk_starts 0 (length [''a'', ''b'', ''c'', ''d'', ''e'']) (Embed_batchSize 2))
     = [[''a'', ''b''], [''c'', ''d''], [''e'']]
   \<and> Embed_batchSize 0 = 512 \<and> Embed_batchSize (- 3) = 512"
proof -
  let ?input = "[''a'', ''b'', ''c'', ''d'', ''e'']"
  let ?cs = "map (chunk ?input (Embed_batchSize 2)) (chunk_starts 0 (length ?input) (Embed_batchSize 2))"
  note t = Embed_partitions_input [of 2 ?input "\<lambda>c. None", unfolded Let_def]
  have "Embed_batchSize 2 = (if (2::int) \<le> 0 then 512 else nat 2)" using t by blast
  then have bs: "Embed_batchSize 2 = 2" by simp
  have "length ?cs = (length ?input + Embed_batchSize 2 - 1) div Embed_batchSize 2"
    using t by blast
  then have len: "length ?cs = 3" unfolding bs by simp
  have nth: "\<forall>k<length ?cs. ?cs ! k = take (Embed_batchSize 2) (drop (k * Embed_batchSize 2) ?input)"
    using t by blast
  have "?cs ! 0 = [''a'', ''b'']" "?cs ! 1 = [''c'', ''d'']" "?cs ! 2 = [''e'']"
    using nth [rule_format, unfolded len, of 0] nth [rule_format, unfolded len, of 1]
      nth [rule_format, unfolded len, of 2]
    by (simp_all add: bs)
  moreover have "?cs = [?cs ! 0, ?cs ! 1, ?cs ! 2]"
    by (rule list_of_length_3 [OF len])
  ultimately have "?cs = [[''a'', ''b''], [''c'', ''d''], [''e'']]"
    by metis
  moreover have "Embed_batchSize 0 = 512" "Embed_batchSize (- 3) = 512"
  proof -
    have "Embed_batchSize 0 = (if (0::int) \<le> 0 then 512 else nat 0)"
      using Embed_partitions_input [of 0 "[]" "\<lambda>c. None", unfolded Let_def] by blast
    then show "Embed_batchSize 0 = 512" by simp
    have "Embed_batchSize (- 3) = (if (- 3::int) \<le> 0 then 512 else nat (- 3))"
      using Embed_partitions_input [of "- 3" "[]" "\<lambda>c. None", unfolded Let_def] by blast
    then show "Embed_batchSize (- 3) = 512" by simp
  qed
  ultimately show ?thesis by simp
qed

section \<open>Properties of the ArtifactStore\<close>

lemma network_requests_append:
  "network_requests (evs @ evs') = network_requests evs + network_requests evs'"
  by (induction evs rule: network_requests.induct) auto

lemma fs_op_requests:
  assumes "fs_op ev operation w = (err, w')" and "network_requests [ev] = 0"
  shows "network_requests (trace w') = network_requests (trace w)"
  using assms by (auto simp: fs_op_def network_requests_append split: prod.splits)

lemma untar_loop_requests:
  "untar_loop sys target items w = (err, w') \<Longrightarrow>
     network_requests (trace w') = network_requests (trace w)"
proof (induction sys target items w rule: untar_loop.induct)
  case (1 sys target w)
  then show ?case by simp
next
  case (2 sys target e rest w)
  then show ?case by simp
next
  case (3 sys target hdr contents rest w)
  let ?path = "filepath_Join sys target (Name hdr)"
  show ?case
  proof (cases "Typeflag hdr")
    case TypeOther
    then show ?thesis using "3.prems" "3.IH"(3) [OF refl TypeOther] by simp
  next
    case TypeDir
    obtain e1 w1 where m: "fs_op (EvMkdirAll ?path) (os_MkdirAll sys ?path) w = (e1, w1)"
      by (cases "fs_op (EvMkdirAll ?path) (os_MkdirAll sys ?path) w")
    have r1: "network_requests (trace w1) = network_requests (trace w)"
      using fs_op_requests [OF m] by simp
    show ?thesis
    proof (cases e1)
      case None
      then have "untar_loop sys target rest w1 = (err, w')"
        using "3.prems" TypeDir m by (simp add: Let_def)
      then show ?thesis using "3.IH"(2) [OF refl TypeDir m [symmetric] None] r1 by simp
    next
      case (Some e)
      then show ?thesis using "3.prems" TypeDir m r1 by (simp add: Let_def)
    qed
  next
    case TypeReg
    let ?dir = "filepath_Dir sys ?path"
    obtain e1 w1 where m1: "fs_op (EvMkdirAll ?dir) (os_MkdirAll sys ?dir) w = (e1, w1)"
      by (cases "fs_op (EvMkdirAll ?dir) (os_MkdirAll sys ?dir) w")
    obtain e2 w2 where m2: "fs_op (EvCreate ?path) (os_Create sys ?path) w1 = (e2, w2)"
      by (cases "fs_op (EvCreate ?path) (os_Create sys ?path) w1")
    obtain e3 w3 where m3: "fs_op (EvCopy ?path) (io_Copy sys ?path contents) w2 = (e3, w3)"
      by (cases "fs_op (EvCopy ?path) (io_Copy sys ?path contents) w2")
    have r1: "network_requests (trace w1) = network_requests (trace w)"
      using fs_op_requests [OF m1] by simp
    have r2: "network_requests (trace w2) = network_requests (trace w1)"
      using fs_op_requests [OF m2] by simp
    have r3: "network_requests (trace w3) = network_requests (trace w2)"
      using fs_op_requests [OF m3] by simp
    show ?thesis
    proof (cases e1)
      case (Some e)
      then show ?thesis using "3.prems" TypeReg m1 r1 by (simp add: Let_def)
    next
      case n1: None
      show ?thesis
      proof (cases e2)
        case (Some e)
        then show ?thesis using "3.prems" TypeReg m1 m2 n1 r1 r2 by (simp add: Let_def)
      next
        case n2: None
        show ?thesis
        proof (cases e3)
          case (Some e)
          then show ?thesis using "3.prems" TypeReg m1 m2 m3 n1 n2 r1 r2 r3 by (simp add: Let_def)
        next
          case n3: None
          then have "untar_loop sys target rest w3 = (err, w')"
            using "3.prems" TypeReg m1 m2 m3 n1 n2 by (simp add: Let_def)
          then have "network_requests (trace w') = network_requests (trace w3)"
            using "3.IH"(1) [OF refl TypeReg m1 [symmetric] n1 m2 [symmetric] n2 m3 [symmetric] n3]
            by simp
          then show ?thesis using r1 r2 r3 by simp
        qed
      qed
    qed
  qed
qed

lemma untar_requests:
  "untar sys tarball target w = (err, w') \<Longrightarrow>
     network_requests (trace w') = network_requests (trace w)"
  by (auto simp: untar_def Let_def network_requests_append split: result.splits
           dest!: untar_loop_requests)

lemma downloadFromGcs_requests:
  "downloadFromGcs sys m cacheDir progress w = (r, w') \<Longrightarrow>
     network_requests (trace w') = Suc (network_requests (trace w))"
  by (auto simp: downloadFromGcs_def Let_def close_body_def network_requests_append
           split: result.splits if_splits prod.splits option.splits
           dest!: untar_requests)

lemma retrieveModel_requests:
  "retrieveModel sys m cacheDir progress w = (r, w') \<Longrightarrow>
     network_requests (trace w') \<le> Suc (network_requests (trace w))"
  by (auto simp: retrieveModel_def Let_def network_requests_append split: if_splits
           dest!: downloadFromGcs_requests)


text \<open>
  Claim C6, as amended. (1) When \<^verbatim>\<open>os.Stat\<close> of \<open>cacheDir/model\<close> does not report a
  not-exist error, \<^verbatim>\<open>retrieveModel\<close> returns that path at once: the only operation it
  performs is the \<^verbatim>\<open>os.Stat\<close> (no request, no look at what the directory holds, the file
  system unchanged). Hence, for two resolutions of the same model with the same cache
  directory, one after the other: (2) when after the first one \<^verbatim>\<open>os.Stat\<close> of
  \<open>cacheDir/model\<close> does not report a not-exist error, the second resolution returns the
  path without a request, and the two resolutions together send at most one request;
  (3) when after the first one \<^verbatim>\<open>os.Stat\<close> of \<open>cacheDir/model\<close> reports a not-exist
  error, the second resolution sends one more request.
\<close>

theorem cache_hit_without_network:
  "(os_Stat sys (filepath_Join sys cacheDir m) (files w) \<noteq> StatNotExist \<longrightarrow>
      retrieveModel sys m cacheDir progress w =
        (Ok (filepath_Join sys cacheDir m),
         \<lparr>files = files w, trace = trace w @ [EvStat (filepath_Join sys cacheDir m)]\<rparr>))
   \<and> (\<forall>r1 w1.
        retrieveModel sys m cacheDir progress w = (r1, w1)
        \<and> os_Stat sys (filepath_Join sys cacheDir m) (files w1) \<noteq> StatNotExist \<longrightarrow>
        resolve_twice sys m cacheDir progress w =
          ((r1, Ok (filepath_Join sys cacheDir m)),
           \<lparr>files = files w1, trace = trace w1 @ [EvStat (filepath_Join sys cacheDir m)]\<rparr>)
        \<and> network_requests (trace w1 @ [EvStat (filepath_Join sys cacheDir m)])
              \<le> Suc (network_requests (trace w)))
   \<and> (\<forall>r1 w1 r2 w2.
        retrieveModel sys m cacheDir progress w = (r1, w1)
        \<and> os_Stat sys (filepath_Join sys cacheDir m) (files w1) = StatNotExist
        \<and> retrieveModel sys m cacheDir progress w1 = (r2, w2) \<longrightarrow>
        resolve_twice sys m cacheDir progress w = ((r1, r2), w2)
        \<and> downloadFromGcs sys m cacheDir progress
              \<lparr>files = files w1, trace = trace w1 @ [EvStat (filepath_Join sys cacheDir m)]\<rparr> =
            (r2, w2)
        \<and> network_requests (trace w2) = Suc (network_requests (trace w1)))"
proof (intro conjI allI impI)
  assume "os_Stat sys (filepath_Join sys cacheDir m) (files w) \<noteq> StatNotExist"
  then show "retrieveModel sys m cacheDir progress w =
        (Ok (filepath_Join sys cacheDir m),
         \<lparr>files = files w, trace = trace w @ [EvStat (filepath_Join sys cacheDir m)]\<rparr>)"
    by (simp add: retrieveModel_def Let_def)
next
  fix r1 w1
  assume a: "retrieveModel sys m cacheDir progress w = (r1, w1)
        \<and> os_Stat sys (filepath_Join sys cacheDir m) (files w1) \<noteq> StatNotExist"
  then have "retrieveModel sys m cacheDir progress w1 =
        (Ok (filepath_Join sys cacheDir m),
         \<lparr>files = files w1, trace = trace w1 @ [EvStat (filepath_Join sys cacheDir m)]\<rparr>)"
    by (simp add: retrieveModel_def Let_def)
  then show "resolve_twice sys m cacheDir progress w =
          ((r1, Ok (filepath_Join sys cacheDir m)),
           \<lparr>files = files w1, trace = trace w1 @ [EvStat (filepath_Join sys cacheDir m)]\<rparr>)"
    using a by (simp add: resolve_twice_def)
  show "network_requests (trace w1 @ [EvStat (filepath_Join sys cacheDir m)])
              \<le> Suc (network_requests (trace w))"
    using a retrieveModel_requests [of sys m cacheDir progress w r1 w1]
    by (simp add: network_requests_append)
next
  fix r1 w1 r2 w2
  assume a: "retrieveModel sys m cacheDir progress w = (r1, w1)
        \<and> os_Stat sys (filepath_Join sys cacheDir m) (files w1) = StatNotExist
        \<and> retrieveModel sys m cacheDir progress w1 = (r2, w2)"
  let ?w = "\<lparr>files = files w1, trace = trace w1 @ [EvStat (filepath_Join sys cacheDir m)]\<rparr>"
  show "resolve_twice sys m cacheDir progress w = ((r1, r2), w2)"
    using a by (simp add: resolve_twice_def)
  have stat: "os_Stat sys (filepath_Join sys cacheDir m) (files w1) = StatNotExist"
    using a by blast
  have second: "retrieveModel sys m cacheDir progress w1 = (r2, w2)"
    using a by blast
  have eq: "w1\<lparr>trace := trace w1 @ [EvStat (filepath_Join sys cacheDir m)]\<rparr> = ?w"
    by (cases w1) simp
  have "retrieveModel sys m cacheDir progress w1 =
          downloadFromGcs sys m cacheDir progress
            (w1\<lparr>trace := trace w1 @ [EvStat (filepath_Join sys cacheDir m)]\<rparr>)"
    using stat by (simp add: retrieveModel_def Let_def)
  then have "retrieveModel sys m cacheDir progress w1 = downloadFromGcs sys m cacheDir progress ?w"
    unfolding eq .
  then show d: "downloadFromGcs sys m cacheDir progress ?w = (r2, w2)"
    using second by simp
  show "network_requests (trace w2) = Suc (network_requests (trace w1))"
    using downloadFromGcs_requests [OF d] by (simp add: network_requests_append)
qed

lemma list_os_simps:
  "filepath_Join (list_os resp) dir name = dir @ ''/'' @ name"
  "os_Stat (list_os resp) path fs =
     (if take 5 path = ''/root'' then StatOther (Error ''permission denied'')
      else if path \<in> set fs then StatOk else StatNotExist)"
  "os_MkdirAll (list_os resp) path fs = (None, path # fs)"
  "http_Get (list_os resp) history url = Ok resp"
  "progressbar_NewReader (list_os resp) body = body"
  "gzip_tar (list_os resp) body =
     Ok (map (\<lambda>name. TarEntry \<lparr>Name = name, Typeflag = TypeDir\<rparr> []) body)"
  by (simp_all add: list_os_def)

lemma first_download:
  "retrieveModel (list_os model_archive) ''fast-bge-small-en'' ''local_cache'' True empty_world =
     (Ok ''local_cache/fast-bge-small-en'',
      \<lparr>files = [''local_cache/fast-bge-small-en''],
         trace = [EvStat ''local_cache/fast-bge-small-en'',
                  EvGet ''https://storage.googleapis.com/qdrant-fastembed/fast-bge-small-en.tar.gz'',
                  EvProgressBar ''Downloading fast-bge-small-en'', EvGzipNewReader,
                  EvMkdirAll ''local_cache/fast-bge-small-en'', EvBodyClose]\<rparr>)"
  by (simp add: retrieveModel_def downloadFromGcs_def untar_def fs_op_def close_body_def
        list_os_simps model_archive_def empty_world_def downloadURL_def Let_def)

lemma failed_download:
  "retrieveModel (list_os not_found) ''fast-bge-small-en'' ''local_cache'' True
       \<lparr>files = [], trace = evs\<rparr> =
     (Err (Error ''model download failed: 404 Not Found''),
      \<lparr>files = [],
         trace = evs @
                 [EvStat ''local_cache/fast-bge-small-en'',
                  EvGet ''https://storage.googleapis.com/qdrant-fastembed/fast-bge-small-en.tar.gz'',
                  EvBodyClose]\<rparr>)"
  by (simp add: retrieveModel_def downloadFromGcs_def close_body_def
        list_os_simps not_found_def downloadURL_def Let_def)

text \<open>
  A first resolution that downloads an archive holding the directory of the model, and a
  second one that finds it: one request in all. A resolution with the directory in
  place: no request. And a first resolution that fails on the status 404 and leaves
  nothing behind: the second one sends the second request.
\<close>

theorem cache_hit_without_network_witness:
  "resolve_twice (list_os model_archive) ''fast-bge-small-en'' ''local_cache'' True empty_world =
     ((Ok ''local_cache/fast-bge-small-en'', Ok ''local_cache/fast-bge-small-en''),
      \<lparr>files = [''local_cache/fast-bge-small-en''],
         trace = [EvStat ''local_cache/fast-bge-small-en'',
                  EvGet ''https://storage.googleapis.com/qdrant-fastembed/fast-bge-small-en.tar.gz'',
                  EvProgressBar ''Downloading fast-bge-small-en'', EvGzipNewReader,
                  EvMkdirAll ''local_cache/fast-bge-small-en'', EvBodyClose,
                  EvStat ''local_cache/fast-bge-small-en'']\<rparr>)
   \<and> retrieveModel (list_os model_archive) ''fast-bge-small-en'' ''local_cache'' True
         \<lparr>files = [''local_cache/fast-bge-small-en''], trace = []\<rparr> =
       (Ok ''local_cache/fast-bge-small-en'',
        \<lparr>files = [''local_cache/fast-bge-small-en''],
           trace = [EvStat ''local_cache/fast-bge-small-en'']\<rparr>)
   \<and> resolve_twice (list_os not_found) ''fast-bge-small-en'' ''local_cache'' True empty_world =
       ((Err (Error ''model download failed: 404 Not Found''),
         Err (Error ''model download failed: 404 Not Found'')),
        \<lparr>files = [],
           trace = [EvStat ''local_cache/fast-bge-small-en'',
                    EvGet ''https://storage.googleapis.com/qdrant-fastembed/fast-bge-small-en.tar.gz'',
                    EvBodyClose,
                    EvStat ''local_cache/fast-bge-small-en'',
                    EvGet ''https://storage.googleapis.com/qdrant-fastembed/fast-bge-small-en.tar.gz'',
                    EvBodyClose]\<rparr>)"
proof -
  let ?m = "''fast-bge-small-en''" and ?c = "''local_cache''"
  let ?url = "''https://storage.googleapis.com/qdrant-fastembed/fast-bge-small-en.tar.gz''"
  have hit: "resolve_twice (list_os model_archive) ?m ?c True empty_world =
     ((Ok ''local_cache/fast-bge-small-en'', Ok ''local_cache/fast-bge-small-en''),
      \<lparr>files = [''local_cache/fast-bge-small-en''],
         trace = [EvStat ''local_cache/fast-bge-small-en'', EvGet ?url,
                  EvProgressBar ''Downloading fast-bge-small-en'', EvGzipNewReader,
                  EvMkdirAll ''local_cache/fast-bge-small-en'', EvBodyClose,
                  EvStat ''local_cache/fast-bge-small-en'']\<rparr>)"
    using cache_hit_without_network [of "list_os model_archive" ?c ?m empty_world True]
    by (simp add: first_download list_os_simps)
  have warm: "retrieveModel (list_os model_archive) ?m ?c True
         \<lparr>files = [''local_cache/fast-bge-small-en''], trace = []\<rparr> =
       (Ok ''local_cache/fast-bge-small-en'',
        \<lparr>files = [''local_cache/fast-bge-small-en''],
           trace = [EvStat ''local_cache/fast-bge-small-en'']\<rparr>)"
    using cache_hit_without_network [of "list_os model_archive" ?c ?m
      "\<lparr>files = [''local_cache/fast-bge-small-en''], trace = []\<rparr>" True]
    by (simp add: list_os_simps)
  have miss: "resolve_twice (list_os not_found) ?m ?c True empty_world =
       ((Err (Error ''model download failed: 404 Not Found''),
         Err (Error ''model download failed: 404 Not Found'')),
        \<lparr>files = [],
           trace = [EvStat ''local_cache/fast-bge-small-en'', EvGet ?url, EvBodyClose,
                    EvStat ''local_cache/fast-bge-small-en'', EvGet ?url, EvBodyClose]\<rparr>)"
    using cache_hit_without_network [of "list_os not_found" ?c ?m empty_world True]
      failed_download [of "[]"]
      failed_download [of "[EvStat ''local_cache/fast-bge-small-en'', EvGet ?url, EvBodyClose]"]
    by (simp add: list_os_simps empty_world_def)
  show ?thesis using hit warm miss by simp
qed

text \<open>
  The claim C6 as it is stated fails: the first resolution downloads an archive that
  holds another directory than that of the model, and returns the path; the second
  resolution does not find the directory, sends a second request and returns the path.
\<close>

theorem resolve_twice_counterexample:
  "resolve_twice (list_os other_archive) ''fast-bge-small-en'' ''local_cache'' False empty_world =
     ((Ok ''local_cache/fast-bge-small-en'', Ok ''local_cache/fast-bge-small-en''),
      \<lparr>files = [''local_cache/another-model'', ''local_cache/another-model''],
         trace = [EvStat ''local_cache/fast-bge-small-en'',
                  EvGet ''https://storage.googleapis.com/qdrant-fastembed/fast-bge-small-en.tar.gz'',
                  EvGzipNewReader, EvMkdirAll ''local_cache/another-model'', EvBodyClose,
                  EvStat ''local_cache/fast-bge-small-en'',
                  EvGet ''https://storage.googleapis.com/qdrant-fastembed/fast-bge-small-en.tar.gz'',
                  EvGzipNewReader, EvMkdirAll ''local_cache/another-model'', EvBodyClose]\<rparr>)
   \<and> network_requests
         (trace (snd (resolve_twice (list_os other_archive) ''fast-bge-small-en'' ''local_cache''
                        False empty_world))) = 2"
  by (simp add: resolve_twice_def retrieveModel_def downloadFromGcs_def untar_def fs_op_def
        close_body_def list_os_simps other_archive_def empty_world_def downloadURL_def Let_def)

text \<open>
  Claim C7. On a cache miss (\<^verbatim>\<open>os.Stat\<close> reports a not-exist error), when the GET of the
  archive returns a response whose status code is outside 200..299, \<^verbatim>\<open>retrieveModel\<close>
  returns the error \<open>model download failed: \<close> followed by the status text of the
  response; it has performed the \<^verbatim>\<open>os.Stat\<close>, the GET and the close of the body and
  nothing else: no reader of the archive is opened, nothing is created, and the file
  system is unchanged.
\<close>

theorem download_failure_status:
  assumes "os_Stat sys (filepath_Join sys cacheDir m) (files w) = StatNotExist"
    and "http_Get sys (trace w @ [EvStat (filepath_Join sys cacheDir m)]) (downloadURL m) = Ok response"
    and "StatusCode response < 200 \<or> 299 < StatusCode response"
  shows "retrieveModel sys m cacheDir progress w =
           (Err (Error (''model download failed: '' @ Status response)),
            \<lparr>files = files w,
               trace = trace w @ [EvStat (filepath_Join sys cacheDir m), EvGet (downloadURL m),
                                  EvBodyClose]\<rparr>)"
  using assms by (auto simp: retrieveModel_def downloadFromGcs_def close_body_def Let_def)

theorem download_failure_status_witness:
  "retrieveModel (list_os not_found) ''fast-bge-small-en'' ''local_cache'' False empty_world =
     (Err (Error ''model download failed: 404 Not Found''),
      \<lparr>files = [],
         trace = [EvStat ''local_cache/fast-bge-small-en'',
                  EvGet ''https://storage.googleapis.com/qdrant-fastembed/fast-bge-small-en.tar.gz'',
                  EvBodyClose]\<rparr>)"
  using download_failure_status [of "list_os not_found" "''local_cache''" "''fast-bge-small-en''"
      empty_world not_found False]
  by (simp add: list_os_simps empty_world_def downloadURL_def) (simp add: not_found_def)

text \<open>
  Claim C10. When \<^verbatim>\<open>os.Stat\<close> of \<open>cacheDir/model\<close> fails with an error that is not a
  not-exist error, \<^verbatim>\<open>retrieveModel\<close> returns the path and a nil error: the error of
  \<^verbatim>\<open>os.Stat\<close> is dropped, and nothing is downloaded (the \<^verbatim>\<open>os.Stat\<close> is the only
  operation performed).
\<close>

theorem stat_error_is_cache_hit:
  assumes "os_Stat sys (filepath_Join sys cacheDir m) (files w) = StatOther err"
  shows "retrieveModel sys m cacheDir progress w =
           (Ok (filepath_Join sys cacheDir m),
            \<lparr>files = files w, trace = trace w @ [EvStat (filepath_Join sys cacheDir m)]\<rparr>)"
  using assms by (simp add: retrieveModel_def Let_def)

theorem stat_error_is_cache_hit_witness:
  "os_Stat (list_os model_archive) ''/root/cache/fast-bge-small-en'' [] =
     StatOther (Error ''permission denied'')
   \<and> retrieveModel (list_os model_archive) ''fast-bge-small-en'' ''/root/cache'' True empty_world =
       (Ok ''/root/cache/fast-bge-small-en'',
        \<lparr>files = [], trace = [EvStat ''/root/cache/fast-bge-small-en'']\<rparr>)"
  using stat_error_is_cache_hit [of "list_os model_archive" "''/root/cache''" "''fast-bge-small-en''"
      empty_world "Error ''permission denied''" True]
  by (simp add: list_os_simps empty_world_def)

section \<open>Properties of the shared memory\<close>

lemma store_all_simps [simp]:
  "store_all [] xs = xs"
  "store_all ((i, v) # ws) xs = store_all ws (xs[i := v])"
  by (simp_all add: store_all_def)

lemma length_store_all [simp]: "length (store_all ws xs) = length xs"
  by (induction ws arbitrary: xs) auto

lemma store_all_other: "p \<notin> fst ` set ws \<Longrightarrow> store_all ws xs ! p = xs ! p"
  by (induction ws arbitrary: xs) (auto simp: nth_list_update)

lemma store_all_nth:
  assumes "(p, v) \<in> set ws" and "\<forall>u. (p, u) \<in> set ws \<longrightarrow> u = v" and "p < length xs"
  shows "store_all ws xs ! p = v"
  using assms
proof (induction ws arbitrary: xs)
  case Nil
  then show ?case by simp
next
  case (Cons w ws)
  obtain i u where w: "w = (i, u)" by (cases w)
  have uniq: "\<forall>u. (p, u) \<in> set ws \<longrightarrow> u = v"
    using Cons.prems(2) by (meson list.set_intros(2))
  show ?case
  proof (cases "p \<in> fst ` set ws")
    case True
    then obtain u' where u': "(p, u') \<in> set ws" by auto
    then have "u' = v" using uniq by blast
    then have "(p, v) \<in> set ws" using u' by blast
    then have "store_all ws (xs[i := u]) ! p = v"
      using uniq Cons.prems(3) by (intro Cons.IH) (blast, blast, simp)
    then show ?thesis unfolding w by simp
  next
    case False
    then have "(p, v) \<notin> set ws" by force
    then have "(p, v) = (i, u)" using Cons.prems(1) unfolding w by simp
    then have "store_all ws (xs[i := u]) ! p = v"
      using False Cons.prems(3) by (simp add: store_all_other)
    then show ?thesis unfolding w by simp
  qed
qed

lemma perform_all_result:
  "length (errorCh s) + length (sent as) \<le> cap \<Longrightarrow>
     perform_all cap as s =
       Some \<lparr>embeddings = store_all (stores as) (embeddings s), errorCh = errorCh s @ sent as\<rparr>"
proof (induction as arbitrary: s)
  case Nil
  then show ?case by simp
next
  case (Cons a as)
  show ?case
  proof (cases a)
    case (Send err)
    then show ?thesis using Cons.prems Cons.IH [of "s\<lparr>errorCh := errorCh s @ [err]\<rparr>"] by simp
  next
    case (Write i v)
    then show ?thesis
      using Cons.prems Cons.IH [of "s\<lparr>embeddings := (embeddings s)[i := v]\<rparr>"] by simp
  qed
qed

lemma sent_filter:
  "sent as = concat (map (\<lambda>a. case a of Send err \<Rightarrow> [err] | Write i v \<Rightarrow> []) as)"
  by (induction as rule: sent.induct) auto

lemma stores_filter:
  "stores as = concat (map (\<lambda>a. case a of Send err \<Rightarrow> [] | Write i v \<Rightarrow> [(i, v)]) as)"
  by (induction as rule: stores.induct) auto

lemma mset_concat_map: "mset (concat (map f xs)) = (\<Sum>x\<in>#mset xs. mset (f x))"
  by (induction xs) auto

lemma mset_sent: "mset as = mset bs \<Longrightarrow> mset (sent as) = mset (sent bs)"
  unfolding sent_filter mset_concat_map by (rule arg_cong [where f = "\<lambda>M. \<Sum>x\<in>#M. _ x"])

lemma set_stores: "set (stores as) = {(i, v). Write i v \<in> set as}"
  by (induction as rule: stores.induct) auto

lemma set_stores_perm: "mset as = mset bs \<Longrightarrow> set (stores as) = set (stores bs)"
  using mset_eq_setD [of as bs] by (simp add: set_stores)

lemma sent_append [simp]: "sent (as @ bs) = sent as @ sent bs"
  by (induction as rule: sent.induct) auto

lemma sent_concat: "sent (concat tasks) = concat (map sent tasks)"
  by (induction tasks) auto

lemma stores_append [simp]: "stores (as @ bs) = stores as @ stores bs"
  by (induction as rule: stores.induct) auto

lemma stores_concat: "stores (concat tasks) = concat (map stores tasks)"
  by (induction tasks) auto

section \<open>Properties of Embed\<close>

lemma those_map:
  "those (map f xs) = (if \<forall>x\<in>set xs. f x \<noteq> None then Some (map (\<lambda>x. the (f x)) xs) else None)"
  by (induction xs) (auto split: option.splits)

lemma those_Some_iff: "those xs = Some ys \<longleftrightarrow> xs = map Some ys"
proof (induction xs arbitrary: ys)
  case Nil
  then show ?case by auto
next
  case (Cons x xs)
  then show ?case by (cases x; cases ys) (auto split: option.splits)
qed

lemma chunk_starts_mem:
  "0 < bs \<Longrightarrow> s \<in> set (chunk_starts i n bs) \<longleftrightarrow> i \<le> s \<and> s < n \<and> bs dvd (s - i)"
proof (induction i n bs rule: chunk_starts.induct)
  case (1 i n bs)
  show ?case
  proof (cases "i < n")
    case True
    then have eq: "chunk_starts i n bs = i # chunk_starts (i + bs) n bs"
      using "1.prems" by (subst chunk_starts.simps) simp
    have IH: "s \<in> set (chunk_starts (i + bs) n bs) \<longleftrightarrow> i + bs \<le> s \<and> s < n \<and> bs dvd (s - (i + bs))"
      using "1.IH" True "1.prems" by simp
    have "bs dvd (s - i) \<longleftrightarrow> bs dvd (s - (i + bs))" if "i + bs \<le> s"
    proof -
      have "s - i = (s - (i + bs)) + bs" using that by simp
      then show ?thesis by (metis dvd_add_triv_right_iff)
    qed
    moreover have "s = i \<or> i + bs \<le> s" if "i \<le> s" "bs dvd (s - i)"
    proof (cases "s = i")
      case False
      then have "0 < s - i" using that by simp
      then have "bs \<le> s - i" using that(2) by (simp add: dvd_imp_le)
      then show ?thesis using that(1) by linarith
    qed simp
    ultimately show ?thesis using eq IH True by auto
  next
    case False
    then have "chunk_starts i n bs = []" by (subst chunk_starts.simps) simp
    then show ?thesis using False by auto
  qed
qed

lemma chunk_starts_count: "0 < bs \<Longrightarrow> length (chunk_starts 0 n bs) \<le> n"
proof -
  assume bs: "0 < bs"
  have "(n + bs - 1) div bs \<le> n"
  proof (cases "n = 0")
    case True
    then show ?thesis using bs by simp
  next
    case False
    have le: "n * 1 \<le> n * bs" using bs by (intro mult_le_mono2) simp
    have "n + bs - 1 < n + bs" using bs by simp
    also have "\<dots> \<le> n * bs + bs" using le by simp
    also have "\<dots> = Suc n * bs" by simp
    finally have "(n + bs - 1) div bs < Suc n" using bs by (simp add: less_mult_imp_div_less)
    then show ?thesis by simp
  qed
  then show ?thesis using chunk_starts_length [OF bs, of 0 n] by simp
qed

lemma sent_copy_actions [simp]: "sent (copy_actions i e out) = []"
proof -
  have "sent (map (\<lambda>k. Write (f k) (g k)) ks) = []" for f :: "nat \<Rightarrow> nat" and g :: "nat \<Rightarrow> 'a" and ks
    by (induction ks) auto
  then show ?thesis by (simp add: copy_actions_def)
qed

lemma stores_copy_actions:
  "stores (copy_actions i e out) = map (\<lambda>k. (i + k, out ! k)) [0..<min (e - i) (length out)]"
proof -
  have "stores (map (\<lambda>k. Write (f k) (g k)) ks) = map (\<lambda>k. (f k, g k)) ks"
    for f :: "nat \<Rightarrow> nat" and g :: "nat \<Rightarrow> 'a" and ks
    by (induction ks) auto
  then show ?thesis by (simp add: copy_actions_def)
qed

lemma sent_task_actions:
  "sent (task_actions n bs i r) = errors_of [r]"
  by (cases r) (simp_all add: task_actions_def)

lemma stores_task_actions:
  "stores (task_actions n bs i r) =
     (case r of
        Err err \<Rightarrow> []
      | Ok out \<Rightarrow> map (\<lambda>k. (i + k, out ! k)) [0..<min (chunk_end n bs i - i) (length out)])"
  by (cases r) (simp_all add: task_actions_def stores_copy_actions)

lemma errors_of_append [simp]: "errors_of (rs @ rs') = errors_of rs @ errors_of rs'"
  by (induction rs rule: errors_of.induct) auto

lemma errors_of_concat: "concat (map (\<lambda>r. errors_of [r]) rs) = errors_of rs"
  by (induction rs rule: errors_of.induct) auto

lemma length_errors_of: "length (errors_of rs) \<le> length rs"
  by (induction rs rule: errors_of.induct) auto

lemma Embed_tasks_results:
  assumes "chunk_results onnx input batchSize = map Some results"
  shows "length results = length (chunk_starts 0 (length input) (Embed_batchSize batchSize))"
    and "Embed_tasks onnx input batchSize =
           Some (map (\<lambda>(i, r). task_actions (length input) (Embed_batchSize batchSize) i r)
                   (zip (chunk_starts 0 (length input) (Embed_batchSize batchSize)) results))"
proof -
  define bs where "bs = Embed_batchSize batchSize"
  define starts where "starts = chunk_starts 0 (length input) bs"
  have res: "map (\<lambda>i. onnx (chunk input bs i)) starts = map Some results"
    using assms by (simp add: chunk_results_def Let_def bs_def starts_def)
  then have len: "length results = length starts"
    by (metis length_map)
  have nth: "onnx (chunk input bs (starts ! j)) = Some (results ! j)" if "j < length starts" for j
  proof -
    have "map (\<lambda>i. onnx (chunk input bs i)) starts ! j = map Some results ! j" using res by simp
    then show ?thesis using that len by simp
  qed
  have "map (\<lambda>i. map_option (task_actions (length input) bs i) (onnx (chunk input bs i))) starts =
          map Some (map (\<lambda>(i, r). task_actions (length input) bs i r) (zip starts results))"
    using len nth by (intro nth_equalityI) auto
  then have "Embed_tasks onnx input batchSize =
          Some (map (\<lambda>(i, r). task_actions (length input) bs i r) (zip starts results))"
    by (simp add: Embed_tasks_def Let_def bs_def [symmetric] starts_def [symmetric] those_Some_iff)
  then show "Embed_tasks onnx input batchSize =
           Some (map (\<lambda>(i, r). task_actions (length input) (Embed_batchSize batchSize) i r)
                   (zip (chunk_starts 0 (length input) (Embed_batchSize batchSize)) results))"
    by (simp add: bs_def starts_def)
  show "length results = length (chunk_starts 0 (length input) (Embed_batchSize batchSize))"
    using len by (simp add: bs_def starts_def)
qed

lemma sent_tasks:
  "length starts = length results \<Longrightarrow>
     sent (concat (map (\<lambda>(i, r). task_actions n bs i r) (zip starts results))) = errors_of results"
proof (induction starts results rule: list_induct2)
  case Nil
  then show ?case by simp
next
  case (Cons i starts r results)
  have "errors_of (r # results) = errors_of [r] @ errors_of results"
    using errors_of_append [of "[r]" results] by simp
  then show ?case using Cons by (simp add: sent_task_actions)
qed

lemma set_stores_tasks:
  "length starts = length results \<Longrightarrow>
     set (stores (concat (map (\<lambda>(i, r). task_actions n bs i r) (zip starts results)))) =
       {(i + k, out ! k) | i out k.
          (i, Ok out) \<in> set (zip starts results) \<and> k < min (chunk_end n bs i - i) (length out)}"
proof (induction starts results rule: list_induct2)
  case Nil
  then show ?case by simp
next
  case (Cons i starts r results)
  have one: "set (stores (task_actions n bs i r)) =
          {(i + k, out ! k) | out k. r = Ok out \<and> k < min (chunk_end n bs i - i) (length out)}"
    by (cases r) (auto simp: stores_task_actions)
  let ?f = "\<lambda>(i, r). task_actions n bs i r"
  have "set (stores (concat (map ?f (zip (i # starts) (r # results))))) =
          set (stores (task_actions n bs i r)) \<union> set (stores (concat (map ?f (zip starts results))))"
    by simp
  also have "\<dots> = {(i + k, out ! k) | out k. r = Ok out \<and> k < min (chunk_end n bs i - i) (length out)}
          \<union> {(i + k, out ! k) | i out k.
          (i, Ok out) \<in> set (zip starts results) \<and> k < min (chunk_end n bs i - i) (length out)}"
    by (simp only: one Cons.IH)
  also have "\<dots> = {(j + k, out ! k) | j out k.
          (j, Ok out) \<in> set (zip (i # starts) (r # results)) \<and> k < min (chunk_end n bs j - j) (length out)}"
    by auto
  finally show ?case .
qed

lemma Embed_state_returned:
  assumes "chunk_results onnx input batchSize = map Some results"
  shows "\<exists>tr. mset tr = mset (concat (map (\<lambda>(i, r). task_actions (length input) (Embed_batchSize batchSize) i r)
                   (zip (chunk_starts 0 (length input) (Embed_batchSize batchSize)) results)))
          \<and> Embed_state onnx input batchSize sched =
               Returned \<lparr>embeddings = store_all (stores tr) (replicate (length input) []),
                         errorCh = sent tr\<rparr>"
proof -
  define bs where "bs = Embed_batchSize batchSize"
  define starts where "starts = chunk_starts 0 (length input) bs"
  define tasks where "tasks = map (\<lambda>(i, r). task_actions (length input) bs i r) (zip starts results)"
  define tr where "tr = schedule_trace sched tasks"
  have bs: "0 < bs" by (simp add: bs_def Embed_batchSize_pos)
  have len: "length results = length starts"
    using Embed_tasks_results(1) [OF assms] by (simp add: bs_def starts_def)
  have tasks: "Embed_tasks onnx input batchSize = Some tasks"
    using Embed_tasks_results(2) [OF assms] by (simp add: bs_def starts_def tasks_def)
  have perm: "mset tr = mset (concat tasks)"
    by (simp add: tr_def mset_schedule_trace)
  have "length (sent tr) = length (sent (concat tasks))"
    using mset_sent [OF perm] by (metis size_mset)
  also have "\<dots> = length (errors_of results)"
    using sent_tasks [of starts results "length input" bs] len by (simp add: tasks_def)
  also have "\<dots> \<le> length results" by (rule length_errors_of)
  also have "\<dots> \<le> length input"
    using chunk_starts_count [OF bs, of "length input"] len by (simp add: starts_def)
  finally have room: "length (sent tr) \<le> length input" .
  have "run (length input) sched tasks \<lparr>embeddings = replicate (length input) [], errorCh = []\<rparr> =
          Some \<lparr>embeddings = store_all (stores tr) (replicate (length input) []), errorCh = sent tr\<rparr>"
    using perform_all_result [of "\<lparr>embeddings = replicate (length input) [], errorCh = []\<rparr>" tr "length input"]
      room by (simp add: run_eq_trace tr_def)
  then have "Embed_state onnx input batchSize sched =
               Returned \<lparr>embeddings = store_all (stores tr) (replicate (length input) []),
                         errorCh = sent tr\<rparr>"
    using tasks by (simp add: Embed_state_def)
  then show ?thesis using perm unfolding tasks_def starts_def bs_def by blast
qed

lemma chunk_end_le: "chunk_end n bs i \<le> n" and chunk_end_le_bs: "chunk_end n bs i - i \<le> bs"
  by (auto simp add: chunk_end_def)

lemma split_index:
  assumes "j' * bs + k' = j * bs + k" "k < bs" "k' < bs"
  shows "j' = j \<and> k' = (k::nat)"
proof -
  have "(j' * bs + k') div bs = j'" "(j * bs + k) div bs = j" using assms(2,3) by simp_all
  then have "j' = j" using assms(1) by metis
  then show ?thesis using assms(1) by simp
qed

lemma Embed_state_contents:
  assumes res: "chunk_results onnx input batchSize = map Some results"
  shows "\<exists>s. Embed_state onnx input batchSize sched = Returned s
           \<and> mset (errorCh s) = mset (errors_of results)
           \<and> length (embeddings s) = length input
           \<and> (\<forall>j out k. j < length results \<and> results ! j = Ok out
                  \<and> k < min (chunk_end (length input) (Embed_batchSize batchSize)
                               (j * Embed_batchSize batchSize) - j * Embed_batchSize batchSize)
                             (length out)
                \<longrightarrow> embeddings s ! (j * Embed_batchSize batchSize + k) = out ! k)"
proof -
  define bs where "bs = Embed_batchSize batchSize"
  define n where "n = length input"
  define starts where "starts = chunk_starts 0 n bs"
  define tasks where "tasks = map (\<lambda>(i, r). task_actions n bs i r) (zip starts results)"
  have bs: "0 < bs" by (simp add: bs_def Embed_batchSize_pos)
  have len: "length starts = length results"
    using Embed_tasks_results(1) [OF res] by (simp add: bs_def starts_def n_def)
  obtain tr where perm: "mset tr = mset (concat tasks)"
    and state: "Embed_state onnx input batchSize sched =
               Returned \<lparr>embeddings = store_all (stores tr) (replicate n []), errorCh = sent tr\<rparr>"
    using Embed_state_returned [OF res, of sched]
    unfolding tasks_def starts_def bs_def n_def by blast
  let ?s = "\<lparr>embeddings = store_all (stores tr) (replicate n []), errorCh = sent tr\<rparr>"
  have errs: "mset (errorCh ?s) = mset (errors_of results)"
    using mset_sent [OF perm] sent_tasks [OF len, of n bs] by (simp add: tasks_def)
  have stored: "set (stores tr) = {(i + k, out ! k) | i out k.
          (i, Ok out) \<in> set (zip starts results) \<and> k < min (chunk_end n bs i - i) (length out)}"
    using set_stores_perm [OF perm] set_stores_tasks [OF len, of n bs] by (simp add: tasks_def)
  have start: "starts ! j = j * bs" if "j < length results" for j
    using chunk_starts_nth [of j 0 n bs] that len by (simp add: starts_def)
  have nth: "embeddings ?s ! (j * bs + k) = out ! k"
    if j: "j < length results" and out: "results ! j = Ok out"
      and k: "k < min (chunk_end n bs (j * bs) - j * bs) (length out)" for j out k
  proof -
    have kbs: "k < bs" using k chunk_end_le_bs [of n bs "j * bs"] by simp
    have "(starts ! j, results ! j) \<in> set (zip starts results)"
      using j len by (metis in_set_zip fst_conv snd_conv)
    then have mem: "(j * bs, Ok out) \<in> set (zip starts results)"
      using start [OF j] out by simp
    then have in_tr: "(j * bs + k, out ! k) \<in> set (stores tr)"
      using k unfolding stored by blast
    have uniq: "\<forall>u. (j * bs + k, u) \<in> set (stores tr) \<longrightarrow> u = out ! k"
    proof (intro allI impI)
      fix u assume "(j * bs + k, u) \<in> set (stores tr)"
      then obtain i' out' k' where p: "j * bs + k = i' + k'" and u: "u = out' ! k'"
        and z: "(i', Ok out') \<in> set (zip starts results)"
        and k': "k' < min (chunk_end n bs i' - i') (length out')"
        unfolding stored by blast
      obtain j' where j': "j' < length results" and i': "starts ! j' = i'" and r': "results ! j' = Ok out'"
        using z len by (auto simp: in_set_zip)
      have "k' < bs" using k' chunk_end_le_bs [of n bs i'] by simp
      moreover have "j' * bs + k' = j * bs + k" using p i' start [OF j'] by simp
      ultimately have "j' = j \<and> k' = k" using kbs by (intro split_index)
      then show "u = out ! k" using u r' out by simp
    qed
    have "j * bs + k < n"
      using k chunk_end_le [of n bs "j * bs"] by linarith
    then have "j * bs + k < length (replicate n ([] :: 'a list))" by simp
    then have "store_all (stores tr) (replicate n []) ! (j * bs + k) = out ! k"
      by (rule store_all_nth [OF in_tr uniq])
    then show ?thesis by simp
  qed
  have "length (embeddings ?s) = length input" by (simp add: n_def)
  then show ?thesis
    using state errs nth unfolding bs_def n_def by blast
qed

section \<open>Properties of onnxEmbed\<close>

lemma getEmbeddings_loop_length:
  "getEmbeddings_loop ops data y z idx = Some embs \<Longrightarrow> length embs = length idx"
proof (induction idx arbitrary: embs)
  case Nil
  then show ?case by simp
next
  case (Cons i rest)
  then show ?case by (auto simp: Let_def split: option.splits)
qed

lemma getEmbeddings_length:
  "getEmbeddings ops data (x # y # z # dims) = Some embs \<Longrightarrow> length embs = nat x"
  by (auto simp: getEmbeddings_def split: if_splits dest: getEmbeddings_loop_length)

lemma onnxEmbed_length:
  assumes "onnxEmbed rt f input = Some (Ok out)"
  shows "length out = length input"
proof -
  obtain data where "getEmbeddings (arith rt) data [int (length input), maxLength f, 384] = Some out"
    using assms
    by (auto simp: onnxEmbed_def Let_def split: result.splits option.splits prod.splits)
  then show ?thesis using getEmbeddings_length by fastforce
qed


lemma flatten_example:
  "flatten_encodings (a, b, c)
     (map (\<lambda>s. \<lparr>GetIds = [int (length s)], GetAttentionMask = [1], GetTypeIds = [0]\<rparr>) input) =
   Some (a @ map (\<lambda>s. int (length s)) input, b @ replicate (length input) 1,
         c @ replicate (length input) 0)"
proof (induction input arbitrary: a b c)
  case Nil
  then show ?case by simp
next
  case (Cons s input)
  have "encodingToInt32 [int (length s)] [1] [0] = Some ([int (length s)], [1], [0])"
    by (simp add: encodingToInt32_def)
  then show ?case using Cons [of "a @ [int (length s)]" "b @ [1]" "c @ [0]"]
    by (simp add: replicate_app_Cons_same)
qed

lemma take_drop_block:
  assumes "i < n"
  shows "take 384 (drop (i * 384) (map (\<lambda>k. g (ids ! (k div 384))) [0..<n * 384])) =
           replicate 384 (g (ids ! i))"
proof (intro nth_equalityI)
  have "i * 384 + 384 \<le> n * 384" using assms by simp
  then show len: "length (take 384 (drop (i * 384) (map (\<lambda>k. g (ids ! (k div 384))) [0..<n * 384]))) =
          length (replicate 384 (g (ids ! i)))"
    by simp
  fix k assume "k < length (take 384 (drop (i * 384) (map (\<lambda>k. g (ids ! (k div 384))) [0..<n * 384])))"
  then have k: "k < 384" by simp
  then have "i * 384 + k < n * 384" using \<open>i * 384 + 384 \<le> n * 384\<close> by simp
  moreover have "(i * 384 + k) div 384 = i" using k by simp
  ultimately show "take 384 (drop (i * 384) (map (\<lambda>k. g (ids ! (k div 384))) [0..<n * 384])) ! k =
          replicate 384 (g (ids ! i)) ! k"
    using k by simp
qed

lemma map_nth_upt: "map (\<lambda>i. h (xs ! i)) [0..<length xs] = map h xs"
  by (rule nth_equalityI) simp_all

lemma onnxEmbed_example:
  assumes "''bad'' \<notin> set input" and "length input < 2 ^ 32"
  shows "onnxEmbed (example_runtime ops of_id) example_embedding input =
           Some (Ok (map (\<lambda>s. normalize_vec ops (replicate 384 (of_id (int (length s))))) input))"
proof -
  let ?n = "length input"
  let ?ids = "map (\<lambda>s. int (length s)) input"
  let ?data = "map (\<lambda>k. of_id (?ids ! (k div 384))) [0..<?n * 384]"
  have size: "FlattenedSize [int ?n, 1, 384] = ?n * 384"
    by (simp add: FlattenedSize_def nat_mult_distrib)
  have "int ?n * 1 * 384 < 2 ^ 32 * 384" using assms(2) by simp
  then have small: "int ?n * 1 * 384 < 2 ^ 63" by simp
  have "getEmbeddings ops ?data [int ?n, 1, 384] =
          Some (map (\<lambda>i. normalize_vec ops (take (nat 384) (drop (i * nat 1 * nat 384) ?data)))
                  [0..<nat (int ?n)])"
    by (rule getEmbeddings_result) (use small in simp_all)
  also have "\<dots> = Some (map (\<lambda>i. normalize_vec ops (replicate 384 (of_id (?ids ! i)))) [0..<?n])"
    by (simp add: take_drop_block)
  also have "\<dots> = Some (map (\<lambda>i. normalize_vec ops (replicate 384 (of_id (int (length (input ! i))))))
                        [0..<?n])"
    by simp
  also have "\<dots> = Some (map (\<lambda>s. normalize_vec ops (replicate 384 (of_id (int (length s))))) input)"
    using map_nth_upt [of "\<lambda>s. normalize_vec ops (replicate 384 (of_id (int (length s))))" input]
    by (rule arg_cong)
  finally have emb: "getEmbeddings ops ?data [int ?n, 1, 384] =
          Some (map (\<lambda>s. normalize_vec ops (replicate 384 (of_id (int (length s))))) input)" .
  show ?thesis
    using assms(1) emb
    by (simp add: onnxEmbed_def example_embedding_def example_tokenizer_def example_runtime_def
          flatten_example [of "[]" "[]" "[]", simplified] size Let_def)
qed

lemma onnxEmbed_example_error:
  "''bad'' \<in> set input \<Longrightarrow>
     onnxEmbed (example_runtime ops of_id) example_embedding input = Some (Err (Error ''cannot encode''))"
  by (simp add: onnxEmbed_def example_embedding_def example_tokenizer_def)

section \<open>QueryEmbed and PassageEmbed add the task prefix\<close>

text \<open>
  Claim C8. \<^verbatim>\<open>QueryEmbed\<close> calls \<^verbatim>\<open>onnxEmbed\<close> once, on the batch whose only string is
  \<open>query: \<close> followed by the input: it passes a panic and an error on, and otherwise the batch
  has come back as exactly one vector, which is the result. \<^verbatim>\<open>PassageEmbed\<close> is
  \<^verbatim>\<open>Embed\<close>, with the same batch size (and under the same schedule), on the list of the
  same length whose \<open>i\<close>-th string is \<open>passage: \<close> followed by the \<open>i\<close>-th input.
\<close>

theorem prefix_embeddings:
  "(case onnxEmbed rt f [''query: '' @ text] of
      None \<Rightarrow> QueryEmbed rt f text = None
    | Some (Err err) \<Rightarrow> QueryEmbed rt f text = Some (Err err)
    | Some (Ok data) \<Rightarrow> (\<exists>v. data = [v] \<and> QueryEmbed rt f text = Some (Ok v)))
   \<and> (\<exists>processedInput.
         PassageEmbed rt f input batchSize sched = Embed rt f processedInput batchSize sched
         \<and> length processedInput = length input
         \<and> (\<forall>i < length input. processedInput ! i = ''passage: '' @ input ! i))"
proof (intro conjI)
  show "case onnxEmbed rt f [''query: '' @ text] of
      None \<Rightarrow> QueryEmbed rt f text = None
    | Some (Err err) \<Rightarrow> QueryEmbed rt f text = Some (Err err)
    | Some (Ok data) \<Rightarrow> (\<exists>v. data = [v] \<and> QueryEmbed rt f text = Some (Ok v))"
  proof (cases "onnxEmbed rt f [''query: '' @ text]")
    case None
    then show ?thesis by (simp add: QueryEmbed_def)
  next
    case (Some r)
    show ?thesis
    proof (cases r)
      case (Err err)
      then show ?thesis using Some by (simp add: QueryEmbed_def)
    next
      case (Ok data)
      then have "length data = 1" using Some onnxEmbed_length [of rt f "[''query: '' @ text]" data] by simp
      then obtain v where "data = [v]" by (cases data) auto
      then show ?thesis using Some Ok by (simp add: QueryEmbed_def)
    qed
  qed
  have "PassageEmbed rt f input batchSize sched =
          Embed rt f (map (\<lambda>v. ''passage: '' @ v) input) batchSize sched"
    by (simp add: PassageEmbed_def)
  then show "\<exists>processedInput.
         PassageEmbed rt f input batchSize sched = Embed rt f processedInput batchSize sched
         \<and> length processedInput = length input
         \<and> (\<forall>i < length input. processedInput ! i = ''passage: '' @ input ! i)"
    by (intro exI [of _ "map (\<lambda>v. ''passage: '' @ v) input"]) simp
qed

text \<open>
  With the tokenizer and the engine of the example, a query of five characters is embedded
  as a string of twelve; two passages are embedded with their prefixes, in their order.
\<close>

lemma list_of_length_2: "length xs = 2 \<Longrightarrow> xs = [xs ! 0, xs ! 1]"
  by (auto simp: numeral_2_eq_2 length_Suc_conv)

theorem prefix_embeddings_witness:
  "onnxEmbed (example_runtime ieee32 (\<lambda>k. Fin False (of_int k))) example_embedding [''query: hello''] =
     Some (Ok [normalize_vec ieee32 (replicate 384 (Fin False 12))])
   \<and> QueryEmbed (example_runtime ieee32 (\<lambda>k. Fin False (of_int k))) example_embedding ''hello'' =
       Some (Ok (normalize_vec ieee32 (replicate 384 (Fin False 12))))
   \<and> PassageEmbed (example_runtime ieee32 (\<lambda>k. Fin False (of_int k))) example_embedding
         [''a'', ''bc''] 1 [1, 0] =
       Embed (example_runtime ieee32 (\<lambda>k. Fin False (of_int k))) example_embedding
         [''passage: a'', ''passage: bc''] 1 [1, 0]"
proof -
  let ?rt = "example_runtime ieee32 (\<lambda>k. Fin False (of_int k))"
  have q: "onnxEmbed ?rt example_embedding [''query: hello''] =
     Some (Ok [normalize_vec ieee32 (replicate 384 (Fin False 12))])"
    using onnxEmbed_example [of "[''query: hello'']" ieee32 "\<lambda>k. Fin False (of_int k)"] by simp
  have query: "QueryEmbed ?rt example_embedding ''hello'' =
       Some (Ok (normalize_vec ieee32 (replicate 384 (Fin False 12))))"
    using prefix_embeddings [of ?rt example_embedding "''hello''" "[]" 1 "[]"] q by simp
  obtain p where eq: "PassageEmbed ?rt example_embedding [''a'', ''bc''] 1 [1, 0] =
        Embed ?rt example_embedding p 1 [1, 0]"
    and len: "length p = length [''a'', ''bc'']"
    and nth: "\<forall>i < length [''a'', ''bc'']. p ! i = ''passage: '' @ [''a'', ''bc''] ! i"
    using prefix_embeddings [of ?rt example_embedding "''hello''" "[''a'', ''bc'']" 1 "[1, 0]"]
    by blast
  have "p ! 0 = ''passage: a''" "p ! 1 = ''passage: bc''"
    using nth [rule_format, of 0] nth [rule_format, of 1] by simp_all
  moreover have "p = [p ! 0, p ! 1]" using len by (intro list_of_length_2) simp
  ultimately have "p = [''passage: a'', ''passage: bc'']" by metis
  then show ?thesis using q query eq by simp
qed

section \<open>normalize on a vector of zeros\<close>

lemma round32_zero: "round32 sign 0 = Fin sign 0"
  by (simp add: round32_def round_mag_def)

lemma sum_squares_zeros:
  "\<forall>x\<in>set v. is_zero x \<Longrightarrow>
     foldl (\<lambda>norm val. add32 norm (mul32 val val)) (Fin False 0) v = Fin False 0"
proof (induction v)
  case Nil
  then show ?case by simp
next
  case (Cons x v)
  then have "mul32 x x = Fin False 0" by (auto simp: is_zero_def round32_zero)
  then show ?case using Cons by (simp add: signed_def)
qed

text \<open>
  Claim C9. \<^verbatim>\<open>normalize\<close> has no guard: it returns a vector for every input, never an
  error. For a vector of zeros (of either sign), in binary32 arithmetic, the sum of the
  squares and the norm are \<open>+0\<close>, and every element of the result is the NaN that
  \<open>0 / 0\<close> and then \<open>NaN + epsilon\<close> give.
\<close>

theorem normalize_zeros_is_NaN:
  assumes "\<forall>x\<in>set v. is_zero x"
  shows "sum_squares ieee32 v = Fin False 0
       \<and> f32_sqrt ieee32 (sum_squares ieee32 v) = Fin False 0
       \<and> (\<forall>x\<in>set v. f32_div ieee32 x (f32_sqrt ieee32 (sum_squares ieee32 v)) = NaN)
       \<and> normalize_vec ieee32 v = replicate (length v) NaN"
proof -
  have sum: "sum_squares ieee32 v = Fin False 0"
    using sum_squares_zeros [OF assms] by (simp add: sum_squares_def ieee32_def)
  then have norm: "f32_sqrt ieee32 (sum_squares ieee32 v) = Fin False 0"
    by (simp add: ieee32_def)
  have quot: "f32_div ieee32 x (Fin False 0) = NaN" if "x \<in> set v" for x
    using assms that by (auto simp: is_zero_def ieee32_def)
  have "map (\<lambda>val. f32_add ieee32 (f32_div ieee32 val (Fin False 0)) (f32_epsilon ieee32)) v =
          replicate (length v) NaN"
  proof (rule nth_equalityI)
    show "length (map (\<lambda>val. f32_add ieee32 (f32_div ieee32 val (Fin False 0)) (f32_epsilon ieee32)) v) =
            length (replicate (length v) NaN)"
      by simp
  next
    fix i assume "i < length (map (\<lambda>val. f32_add ieee32 (f32_div ieee32 val (Fin False 0)) (f32_epsilon ieee32)) v)"
    then have i: "i < length v" by simp
    then have "f32_div ieee32 (v ! i) (Fin False 0) = NaN" using quot by simp
    then show "map (\<lambda>val. f32_add ieee32 (f32_div ieee32 val (Fin False 0)) (f32_epsilon ieee32)) v ! i =
            replicate (length v) NaN ! i"
      using i by (simp add: ieee32_def)
  qed
  then have "normalize_vec ieee32 v = replicate (length v) NaN"
    by (simp add: normalize_vec_def Let_def norm)
  then show ?thesis using sum norm quot by simp
qed

theorem normalize_zeros_is_NaN_witness:
  "normalize_vec ieee32 [Fin False 0, Fin True 0, Fin False 0] = [NaN, NaN, NaN]
   \<and> sum_squares ieee32 [Fin False 0, Fin True 0, Fin False 0] = Fin False 0"
  using normalize_zeros_is_NaN [of "[Fin False 0, Fin True 0, Fin False 0]"]
  by (simp add: is_zero_def numeral_3_eq_3)

section \<open>The result of Embed\<close>

lemma chunk_results_nth:
  assumes "chunk_results onnx input batchSize = map Some results" and "j < length results"
  shows "onnx (chunk input (Embed_batchSize batchSize) (j * Embed_batchSize batchSize)) = Some (results ! j)"
    and "j * Embed_batchSize batchSize < length input"
proof -
  define bs where "bs = Embed_batchSize batchSize"
  define starts where "starts = chunk_starts 0 (length input) bs"
  have len: "length starts = length results"
    using Embed_tasks_results(1) [OF assms(1)] by (simp add: bs_def starts_def)
  have start: "starts ! j = j * bs"
    using chunk_starts_nth [of j 0 "length input" bs] assms(2) len by (simp add: starts_def)
  have "map (\<lambda>i. onnx (chunk input bs i)) starts ! j = map Some results ! j"
    using assms(1) by (simp add: chunk_results_def Let_def bs_def starts_def)
  then have "onnx (chunk input bs (starts ! j)) = Some (results ! j)"
    using assms(2) len by simp
  then show "onnx (chunk input (Embed_batchSize batchSize) (j * Embed_batchSize batchSize)) = Some (results ! j)"
    using start by (simp add: bs_def)
  have "starts ! j \<in> set starts" using assms(2) len by simp
  then have "starts ! j < length input" unfolding starts_def by (rule chunk_starts_less)
  then show "j * Embed_batchSize batchSize < length input" using start by (simp add: bs_def)
qed

lemma chunk_results_index:
  assumes "chunk_results onnx input batchSize = map Some results" and "i < length input"
  shows "i div Embed_batchSize batchSize < length results"
proof -
  define bs where "bs = Embed_batchSize batchSize"
  define starts where "starts = chunk_starts 0 (length input) bs"
  have bs: "0 < bs" by (simp add: bs_def Embed_batchSize_pos)
  have len: "length starts = length results"
    using Embed_tasks_results(1) [OF assms(1)] by (simp add: bs_def starts_def)
  have "i div bs * bs \<le> i" by simp
  then have "i div bs * bs < length input" using assms(2) by linarith
  then have "i div bs * bs \<in> set starts"
    using bs unfolding starts_def by (subst chunk_starts_mem) auto
  then obtain j where j: "j < length starts" and "starts ! j = i div bs * bs"
    by (auto simp: in_set_conv_nth)
  moreover have "starts ! j = j * bs"
    using chunk_starts_nth [of j 0 "length input" bs] j by (simp add: starts_def)
  ultimately have "j = i div bs" using bs by simp
  then show ?thesis using j len by (simp add: bs_def)
qed

lemma chunk_nth:
  assumes "i < length input" and "0 < bs"
  shows "chunk input bs (i div bs * bs) ! (i mod bs) = input ! i"
    and "i mod bs < length (chunk input bs (i div bs * bs))"
proof -
  have i: "i div bs * bs + i mod bs = i" by simp
  have lt: "i mod bs < bs" using assms(2) by simp
  have "i div bs * bs \<le> i" by simp
  then have "i mod bs < length input - i div bs * bs" using assms(1) i by linarith
  then show "i mod bs < length (chunk input bs (i div bs * bs))"
    using lt by (simp add: chunk_eq_take_drop)
  have "i div bs * bs \<le> length input" using \<open>i div bs * bs \<le> i\<close> assms(1) by linarith
  then have "drop (i div bs * bs) input ! (i mod bs) = input ! (i div bs * bs + i mod bs)"
    by (rule nth_drop)
  then have "drop (i div bs * bs) input ! (i mod bs) = input ! i"
    unfolding i .
  then show "chunk input bs (i div bs * bs) ! (i mod bs) = input ! i"
    using lt by (simp add: chunk_eq_take_drop)
qed

lemma errors_of_nil_iff: "errors_of rs = [] \<longleftrightarrow> (\<forall>r\<in>set rs. \<exists>v. r = Ok v)"
  by (induction rs rule: errors_of.induct) auto

lemma set_errors_of: "set (errors_of rs) = {err. Err err \<in> set rs}"
  by (induction rs rule: errors_of.induct) auto

lemma Embed_state_vectors:
  assumes res: "chunk_results (onnxEmbed rt f) input batchSize = map Some results"
  shows "\<exists>s. Embed_state (onnxEmbed rt f) input batchSize sched = Returned s
           \<and> mset (errorCh s) = mset (errors_of results)
           \<and> length (embeddings s) = length input
           \<and> (\<forall>j out k. j < length results \<and> results ! j = Ok out \<and> k < length out
                \<longrightarrow> embeddings s ! (j * Embed_batchSize batchSize + k) = out ! k)"
proof -
  define bs where "bs = Embed_batchSize batchSize"
  obtain s where state: "Embed_state (onnxEmbed rt f) input batchSize sched = Returned s"
    and errs: "mset (errorCh s) = mset (errors_of results)"
    and len: "length (embeddings s) = length input"
    and stored: "\<forall>j out k. j < length results \<and> results ! j = Ok out
                  \<and> k < min (chunk_end (length input) bs (j * bs) - j * bs) (length out)
                \<longrightarrow> embeddings s ! (j * bs + k) = out ! k"
    using Embed_state_contents [OF res, of sched] unfolding bs_def by blast
  have "embeddings s ! (j * bs + k) = out ! k"
    if j: "j < length results" and out: "results ! j = Ok out" and k: "k < length out" for j out k
  proof -
    have "onnxEmbed rt f (chunk input bs (j * bs)) = Some (Ok out)"
      using chunk_results_nth(1) [OF res j] out by (simp add: bs_def)
    then have "length out = length (chunk input bs (j * bs))" by (rule onnxEmbed_length)
    also have "\<dots> = chunk_end (length input) bs (j * bs) - j * bs"
      using chunk_end_le [of "length input" bs "j * bs"] by (simp add: chunk_def)
    finally have "k < min (chunk_end (length input) bs (j * bs) - j * bs) (length out)"
      using k by simp
    then show ?thesis using stored j out by blast
  qed
  then show ?thesis using state errs len unfolding bs_def by blast
qed

text \<open>
  Claim C5. Let no goroutine panic, and let \<open>results\<close> be what the calls of \<^verbatim>\<open>onnxEmbed\<close>
  return, chunk by chunk. Under every schedule \<^verbatim>\<open>wg.Wait()\<close> returns (no send blocks), and
  by then every task has finished: the channel holds the errors of all the failed
  chunks, each once, and the vectors of every chunk that succeeded are in their places.
  If a chunk has failed, \<^verbatim>\<open>Embed\<close> returns one of the recorded errors (the first in the
  channel) and no vectors; if none has failed, it returns the vectors, one per input,
  and no error.
\<close>

theorem Embed_error_policy:
  assumes "chunk_results (onnxEmbed rt f) input batchSize = map Some results"
  shows "\<exists>s. Embed_state (onnxEmbed rt f) input batchSize sched = Returned s
           \<and> mset (errorCh s) = mset (errors_of results)
           \<and> (\<forall>j out k. j < length results \<and> results ! j = Ok out \<and> k < length out
                \<longrightarrow> embeddings s ! (j * Embed_batchSize batchSize + k) = out ! k)
           \<and> (if errors_of results = []
               then Embed rt f input batchSize sched = Returned (Ok (embeddings s))
                    \<and> length (embeddings s) = length input
               else Embed rt f input batchSize sched = Returned (Err (hd (errorCh s)))
                    \<and> hd (errorCh s) \<in> set (errors_of results))"
proof -
  obtain s where state: "Embed_state (onnxEmbed rt f) input batchSize sched = Returned s"
    and errs: "mset (errorCh s) = mset (errors_of results)"
    and len: "length (embeddings s) = length input"
    and stored: "\<forall>j out k. j < length results \<and> results ! j = Ok out \<and> k < length out
                \<longrightarrow> embeddings s ! (j * Embed_batchSize batchSize + k) = out ! k"
    using Embed_state_vectors [OF assms, of sched] by blast
  have ret: "Embed rt f input batchSize sched =
          Returned (if length (errorCh s) > 0 then Err (hd (errorCh s)) else Ok (embeddings s))"
    using state by (simp add: Embed_def Embed_with_def)
  have size: "length (errorCh s) = length (errors_of results)"
    using errs by (metis size_mset)
  have final: "if errors_of results = []
               then Embed rt f input batchSize sched = Returned (Ok (embeddings s))
                    \<and> length (embeddings s) = length input
               else Embed rt f input batchSize sched = Returned (Err (hd (errorCh s)))
                    \<and> hd (errorCh s) \<in> set (errors_of results)"
  proof (cases "errors_of results = []")
    case True
    then show ?thesis using ret size len by simp
  next
    case False
    then have ne: "errorCh s \<noteq> []" using size by auto
    then have "hd (errorCh s) \<in> set (errorCh s)" by simp
    moreover have "set (errorCh s) = set (errors_of results)" using errs by (rule mset_eq_setD)
    ultimately show ?thesis using False ret ne by simp
  qed
  show ?thesis using state errs stored final by blast
qed


lemma chunk_starts_example:
  "chunk_starts 0 (Suc (Suc (Suc 0))) (Suc 0) = [0, 1, 2]"
  "chunk_starts 0 (Suc (Suc (Suc 0))) 2 = [0, 2]"
  by (simp_all add: chunk_starts.simps)

lemma example_results_failure:
  "chunk_results (onnxEmbed (example_runtime ops of_id) example_embedding) [''a'', ''bad'', ''cc''] 1 =
     map Some [Ok [normalize_vec ops (replicate 384 (of_id 1))],
               Err (Error ''cannot encode''),
               Ok [normalize_vec ops (replicate 384 (of_id 2))]]"
  using onnxEmbed_example [of "[''a'']" ops of_id] onnxEmbed_example [of "[''cc'']" ops of_id]
    onnxEmbed_example_error [of "[''bad'']" ops of_id]
  by (simp add: chunk_results_def Embed_batchSize_def chunk_starts_example chunk_eq_take_drop)

lemma example_results_success:
  "chunk_results (onnxEmbed (example_runtime ops of_id) example_embedding) [''a'', ''bb'', ''ccc''] 2 =
     map Some [Ok [normalize_vec ops (replicate 384 (of_id 1)),
                   normalize_vec ops (replicate 384 (of_id 2))],
               Ok [normalize_vec ops (replicate 384 (of_id 3))]]"
  using onnxEmbed_example [of "[''a'', ''bb'']" ops of_id] onnxEmbed_example [of "[''ccc'']" ops of_id]
  by (simp add: chunk_results_def Embed_batchSize_def chunk_starts_example chunk_eq_take_drop)

text \<open>
  Three inputs in chunks of one, the second of which fails, under the schedule that runs
  the goroutines in the reverse order: \<^verbatim>\<open>Embed\<close> returns the error of the second chunk.
  Three inputs in chunks of two, none of which fails, under the same schedule: it returns
  the three vectors.
\<close>

theorem Embed_error_policy_witness:
  "Embed (example_runtime ieee32 (\<lambda>k. Fin False (of_int k))) example_embedding
      [''a'', ''bad'', ''cc''] 1 [2, 1, 0] = Returned (Err (Error ''cannot encode''))
   \<and> Embed (example_runtime ieee32 (\<lambda>k. Fin False (of_int k))) example_embedding
      [''a'', ''bb'', ''ccc''] 2 [2, 1, 0] =
       Returned (Ok [normalize_vec ieee32 (replicate 384 (Fin False 1)),
                     normalize_vec ieee32 (replicate 384 (Fin False 2)),
                     normalize_vec ieee32 (replicate 384 (Fin False 3))])"
proof -
  let ?rt = "example_runtime ieee32 (\<lambda>k. Fin False (of_int k))"
  let ?e = "\<lambda>k. normalize_vec ieee32 (replicate 384 (Fin False k))"
  have "Embed ?rt example_embedding [''a'', ''bad'', ''cc''] 1 [2, 1, 0] =
          Returned (Err (Error ''cannot encode''))"
  proof -
    let ?results = "[Ok [?e 1], Err (Error ''cannot encode''), Ok [?e 2]]"
    have e: "errors_of ?results = [Error ''cannot encode'']" by simp
    have res: "chunk_results (onnxEmbed ?rt example_embedding) [''a'', ''bad'', ''cc''] 1 =
                 map Some ?results"
      using example_results_failure [of ieee32 "\<lambda>k. Fin False (of_int k)"] by simp
    note t = Embed_error_policy [OF res, of "[2, 1, 0]", unfolded e]
    from t obtain s :: "f32 list shared" where
      "if [Error ''cannot encode''] = []
       then Embed ?rt example_embedding [''a'', ''bad'', ''cc''] 1 [2, 1, 0] = Returned (Ok (embeddings s))
            \<and> length (embeddings s) = length [''a'', ''bad'', ''cc'']
       else Embed ?rt example_embedding [''a'', ''bad'', ''cc''] 1 [2, 1, 0] = Returned (Err (hd (errorCh s)))
            \<and> hd (errorCh s) \<in> set [Error ''cannot encode'']"
      by blast
    then show ?thesis by simp
  qed
  moreover have "Embed ?rt example_embedding [''a'', ''bb'', ''ccc''] 2 [2, 1, 0] =
          Returned (Ok [?e 1, ?e 2, ?e 3])"
  proof -
    let ?results = "[Ok [?e 1, ?e 2], Ok [?e 3]]"
    have e: "errors_of ?results = []" by simp
    have res: "chunk_results (onnxEmbed ?rt example_embedding) [''a'', ''bb'', ''ccc''] 2 =
                 map Some ?results"
      using example_results_success [of ieee32 "\<lambda>k. Fin False (of_int k)"] by simp
    note t = Embed_error_policy [OF res, of "[2, 1, 0]", unfolded e, unfolded simp_thms if_True]
    from t obtain s :: "f32 list shared" where stored: "\<forall>j out k. j < length ?results \<and> ?results ! j = Ok out \<and> k < length out
                \<longrightarrow> embeddings s ! (j * Embed_batchSize 2 + k) = out ! k"
      and ret: "Embed ?rt example_embedding [''a'', ''bb'', ''ccc''] 2 [2, 1, 0] = Returned (Ok (embeddings s))"
      and len: "length (embeddings s) = length [''a'', ''bb'', ''ccc'']"
      by blast
    have bs: "Embed_batchSize 2 = 2" by (simp add: Embed_batchSize_def)
    have "embeddings s ! 0 = ?e 1"
      using stored [rule_format, of 0 "[?e 1, ?e 2]" 0] by (simp add: bs)
    moreover have "embeddings s ! 1 = ?e 2"
      using stored [rule_format, of 0 "[?e 1, ?e 2]" 1] by (simp add: bs)
    moreover have "embeddings s ! 2 = ?e 3"
      using stored [rule_format, of 1 "[?e 3]" 0] by (simp add: bs)
    moreover have "embeddings s = [embeddings s ! 0, embeddings s ! 1, embeddings s ! 2]"
      using len by (intro list_of_length_3) simp
    ultimately have "embeddings s = [?e 1, ?e 2, ?e 3]" by metis
    then show ?thesis using ret by simp
  qed
  ultimately show ?thesis by blast
qed

section \<open>Embed preserves the order of its input\<close>

lemma all_results_ok:
  "\<forall>r\<in>set rs. \<exists>out. r = Some (Ok out) \<Longrightarrow> \<exists>outs. rs = map Some (map Ok outs)"
proof (induction rs)
  case Nil
  then show ?case by simp
next
  case (Cons r rs)
  then obtain out outs where "r = Some (Ok out)" "rs = map Some (map Ok outs)" by auto
  then have "r # rs = map Some (map Ok (out # outs))" by simp
  then show ?case by (rule exI)
qed

lemma errors_of_map_Ok [simp]: "errors_of (map Ok outs) = []"
  by (induction outs) auto

text \<open>
  Claim C1. Let every chunk task succeed: each call of \<^verbatim>\<open>onnxEmbed\<close> on a chunk returns
  vectors. Then there is one sequence \<open>embs\<close> that \<^verbatim>\<open>Embed\<close> returns under every schedule
  of the goroutines, whatever the order in which they run and finish. It has the length
  of the input, and its \<open>i\<close>-th element is the embedding of the \<open>i\<close>-th input string: that
  string is the string number \<open>i mod bs\<close> of the chunk that starts at \<open>(i div bs) * bs\<close>, and
  the element is the vector number \<open>i mod bs\<close> of what \<^verbatim>\<open>onnxEmbed\<close> returns for that
  chunk (\<open>bs\<close> is the batch size, 512 for a \<^verbatim>\<open>batchSize\<close> that is not positive).
\<close>

theorem Embed_preserves_order:
  assumes "\<forall>r\<in>set (chunk_results (onnxEmbed rt f) input batchSize). \<exists>out. r = Some (Ok out)"
  shows "\<exists>embs.
           (\<forall>sched. Embed rt f input batchSize sched = Returned (Ok embs))
           \<and> length embs = length input
           \<and> (\<forall>i < length input. \<exists>out.
                 onnxEmbed rt f
                   (chunk input (Embed_batchSize batchSize)
                      (i div Embed_batchSize batchSize * Embed_batchSize batchSize)) = Some (Ok out)
                 \<and> chunk input (Embed_batchSize batchSize)
                      (i div Embed_batchSize batchSize * Embed_batchSize batchSize)
                      ! (i mod Embed_batchSize batchSize) = input ! i
                 \<and> i mod Embed_batchSize batchSize < length out
                 \<and> embs ! i = out ! (i mod Embed_batchSize batchSize))"
proof -
  define bs where "bs = Embed_batchSize batchSize"
  have bs: "0 < bs" by (simp add: bs_def Embed_batchSize_pos)
  obtain outs where res: "chunk_results (onnxEmbed rt f) input batchSize = map Some (map Ok outs)"
    using all_results_ok [OF assms] by blast
  let ?results = "map Ok outs"
  define embs where "embs = map (\<lambda>i. outs ! (i div bs) ! (i mod bs)) [0..<length input]"
  have chunk_ok: "onnxEmbed rt f (chunk input bs (i div bs * bs)) = Some (Ok (outs ! (i div bs)))"
    and in_range: "i div bs < length outs"
    and in_chunk: "i mod bs < length (outs ! (i div bs))"
    if i: "i < length input" for i
  proof -
    have j: "i div bs < length ?results"
      using chunk_results_index [OF res i] by (simp add: bs_def)
    then show "i div bs < length outs" by simp
    have "onnxEmbed rt f (chunk input bs (i div bs * bs)) = Some (?results ! (i div bs))"
      using chunk_results_nth(1) [OF res j [unfolded bs_def]] by (simp add: bs_def)
    then show ok: "onnxEmbed rt f (chunk input bs (i div bs * bs)) = Some (Ok (outs ! (i div bs)))"
      using j by simp
    have "length (outs ! (i div bs)) = length (chunk input bs (i div bs * bs))"
      using ok by (rule onnxEmbed_length)
    then show "i mod bs < length (outs ! (i div bs))"
      using chunk_nth(2) [OF i bs] by simp
  qed
  have returned: "Embed rt f input batchSize sched = Returned (Ok embs)" for sched
  proof -
    obtain s :: "'a list shared" where
      state: "Embed_state (onnxEmbed rt f) input batchSize sched = Returned s"
      and errs: "mset (errorCh s) = mset (errors_of ?results)"
      and len: "length (embeddings s) = length input"
      and stored: "\<forall>j out k. j < length ?results \<and> ?results ! j = Ok out \<and> k < length out
                \<longrightarrow> embeddings s ! (j * Embed_batchSize batchSize + k) = out ! k"
      using Embed_state_vectors [OF res, of sched] by blast
    have "errorCh s = []" using errs by simp
    then have ret: "Embed rt f input batchSize sched = Returned (Ok (embeddings s))"
      using state by (simp add: Embed_def Embed_with_def)
    have "embeddings s = embs"
    proof (rule nth_equalityI)
      show "length (embeddings s) = length embs" using len by (simp add: embs_def)
    next
      fix i assume "i < length (embeddings s)"
      then have i: "i < length input" using len by simp
      have "embeddings s ! (i div bs * bs + i mod bs) = outs ! (i div bs) ! (i mod bs)"
        using stored [rule_format, of "i div bs" "outs ! (i div bs)" "i mod bs"]
          in_range [OF i] in_chunk [OF i] by (simp add: bs_def)
      then show "embeddings s ! i = embs ! i" using i by (simp add: embs_def)
    qed
    then show ?thesis using ret by simp
  qed
  have "length embs = length input" by (simp add: embs_def)
  moreover have "\<exists>out. onnxEmbed rt f (chunk input bs (i div bs * bs)) = Some (Ok out)
                 \<and> chunk input bs (i div bs * bs) ! (i mod bs) = input ! i
                 \<and> i mod bs < length out
                 \<and> embs ! i = out ! (i mod bs)" if i: "i < length input" for i
    using chunk_ok [OF i] chunk_nth(1) [OF i bs] in_chunk [OF i] i by (auto simp: embs_def)
  ultimately show ?thesis using returned unfolding bs_def by blast
qed

text \<open>
  Three inputs in chunks of two: under the schedules that run the two goroutines in
  either order, and step by step in turn, \<^verbatim>\<open>Embed\<close> returns the same three vectors, the
  third being the vector that \<^verbatim>\<open>onnxEmbed\<close> returns for the chunk of the third string.
\<close>

theorem Embed_preserves_order_witness:
  "\<exists>embs. Embed (example_runtime ieee32 (\<lambda>k. Fin False (of_int k))) example_embedding
              [''a'', ''bb'', ''ccc''] 2 [0, 0, 1] = Returned (Ok embs)
         \<and> Embed (example_runtime ieee32 (\<lambda>k. Fin False (of_int k))) example_embedding
              [''a'', ''bb'', ''ccc''] 2 [1, 0, 0] = Returned (Ok embs)
         \<and> Embed (example_runtime ieee32 (\<lambda>k. Fin False (of_int k))) example_embedding
              [''a'', ''bb'', ''ccc''] 2 [0, 1, 0, 1] = Returned (Ok embs)
         \<and> length embs = 3
         \<and> onnxEmbed (example_runtime ieee32 (\<lambda>k. Fin False (of_int k))) example_embedding [''ccc''] =
             Some (Ok [embs ! 2])"
proof -
  let ?rt = "example_runtime ieee32 (\<lambda>k. Fin False (of_int k))"
  let ?input = "[''a'', ''bb'', ''ccc'']"
  have bs: "Embed_batchSize 2 = 2" by (simp add: Embed_batchSize_def)
  have ok: "\<forall>r\<in>set (chunk_results (onnxEmbed ?rt example_embedding) ?input 2). \<exists>out. r = Some (Ok out)"
    using example_results_success [of ieee32 "\<lambda>k. Fin False (of_int k)"] by simp
  obtain embs where all: "\<forall>sched. Embed ?rt example_embedding ?input 2 sched = Returned (Ok embs)"
    and len: "length embs = length ?input"
    and nth: "\<forall>i < length ?input. \<exists>out.
                 onnxEmbed ?rt example_embedding
                   (chunk ?input (Embed_batchSize 2) (i div Embed_batchSize 2 * Embed_batchSize 2)) =
                   Some (Ok out)
                 \<and> chunk ?input (Embed_batchSize 2) (i div Embed_batchSize 2 * Embed_batchSize 2)
                      ! (i mod Embed_batchSize 2) = ?input ! i
                 \<and> i mod Embed_batchSize 2 < length out
                 \<and> embs ! i = out ! (i mod Embed_batchSize 2)"
    using Embed_preserves_order [OF ok] by blast
  obtain out where out: "onnxEmbed ?rt example_embedding [''ccc''] = Some (Ok out)"
    and third: "embs ! 2 = out ! 0"
    using nth [rule_format, of 2] by (auto simp: bs chunk_eq_take_drop)
  have "length out = 1" using onnxEmbed_length [OF out] by simp
  then have "out = [out ! 0]" by (cases out) auto
  then have "onnxEmbed ?rt example_embedding [''ccc''] = Some (Ok [embs ! 2])"
    using out third by simp
  then show ?thesis using all len by auto
qed

end
